theory Spec2Isabelle
  imports Main "HOL-Library.Monad_Syntax"
begin

section \<open>Log values and Valuers (log/value.go)\<close>

text \<open>
  A Go call either returns or panics. A panic carries a value, and so does a return;
  \<open>outcome\<close> keeps the two apart.
\<close>

datatype ('e, 'a) outcome = Panics 'e | Returns 'a

text \<open>
  \<open>time.Time\<close> belongs to the Go standard library. Nothing in this file looks inside
  an instant: it is a wall-clock reading together with the name of its location.
\<close>

record Time =
  wall :: int
  zone :: string

text \<open>\<open>type TimeFormat struct { Time time.Time; Layout string }\<close>\<close>

record TimeFormat =
  Time :: Time
  Layout :: string

text \<open>
  A function value of Go points to a closure: code together with the variables it
  captured. A \<open>closure\<close> names one; what it does when it is called is looked up in the
  closures of the program (\<open>closures\<close> below).
\<close>

type_synonym closure = nat

text \<open>
  A slot of \<open>[]interface{}\<close> holds a value of any dynamic type. The dynamic types that
  matter for binding are told apart by the constructors of \<open>val\<close>:
  \<^item> \<open>Valuer v\<close> is a value whose dynamic type is the named type \<open>Valuer\<close>
    (\<open>type Valuer func() interface{}\<close>);
  \<^item> \<open>FuncV f\<close> is a plain \<open>func() interface{}\<close>, which is not a \<open>Valuer\<close> for a
    type assertion;
  \<^item> \<open>ErrorV msg\<close> is an error value, among them the run-time errors a panic carries.
\<close>

datatype val =
    NilV
  | BoolV bool
  | IntV int
  | StrV string
  | TimeV Time
  | TimeFormatV TimeFormat
  | ErrorV string
  | FuncV closure
  | Valuer closure

text \<open>
  A slice is a header (pointer, length, capacity) over a backing array, and a call
  gets the header by value: the callee and everybody else who holds a slice over the
  array share its cells. The state is the memory a closure can reach: \<open>cells st a\<close> is
  the cell \<open>a\<close> of the backing array of the slice that is being bound, and \<open>world st\<close>
  is everything else (the clock, the call stack, counters). The slice itself is its
  length \<open>n\<close>: its slots are the cells below \<open>n\<close>.
\<close>

record 'w state =
  cells :: "nat \<Rightarrow> val"
  world :: 'w

text \<open>
  Calling a closure in a state gives its outcome and the state it leaves, also when
  it panics. It may read and write the world and every cell, the slots of the slice
  that is being bound among them. A closure is taken to come back, with a value or
  with a panic. A \<open>Valuer\<close> that is \<open>nil\<close> is one that panics when it is called.
\<close>

type_synonym 'w behaviour = "'w state \<Rightarrow> (val, val) outcome \<times> 'w state"

type_synonym 'w closures = "closure \<Rightarrow> 'w behaviour"

text \<open>The contents of the slice of length \<open>n\<close>, and a state whose slice holds a given list.\<close>

definition slice :: "nat \<Rightarrow> 'w state \<Rightarrow> val list" where
  "slice n st = map (cells st) [0..<n]"

definition load :: "val list \<Rightarrow> 'w \<Rightarrow> 'w state" where
  "load keyvals w =
     \<lparr>cells = (\<lambda>a. if a < length keyvals then keyvals ! a else NilV), world = w\<rparr>"

text \<open>
  The type assertion \<open>v, ok := x.(Valuer)\<close>: \<open>Some v\<close> when \<open>ok\<close>, \<open>None\<close> otherwise.
\<close>

fun asValuer :: "val \<Rightarrow> closure option" where
  "asValuer (Valuer v) = Some v"
| "asValuer _ = None"

definition isValuer :: "val \<Rightarrow> bool" where
  "isValuer x = (asValuer x \<noteq> None)"

text \<open>The index expression \<open>keyvals[i]\<close>: Go panics when \<open>i\<close> is out of range.\<close>

definition index :: "val list \<Rightarrow> nat \<Rightarrow> (val, val) outcome" where
  "index keyvals i =
     (if i < length keyvals then Returns (keyvals ! i)
      else Panics (ErrorV ''index out of range''))"

text \<open>
  \<^verbatim>\<open>
  func bindValues(keyvals []interface{}) {
      for i := 1; i < len(keyvals); i += 2 {
          if v, ok := keyvals[i].(Valuer); ok {
              keyvals[i] = v()
          }
      }
  }
  \<close>
  \<open>len(keyvals)\<close> is \<open>n\<close> throughout, since the header is the callee's own. The slot
  is read from the cells as they are when the loop arrives at it. In
  \<open>keyvals[i] = v()\<close> the call comes first and the store into cell \<open>i\<close> second, on
  the cells as \<open>v\<close> left them. The caller sees the cells and the world whether the
  call returns or panics: the result is the outcome and the state.
\<close>

function bindValues_loop ::
  "'w closures \<Rightarrow> nat \<Rightarrow> nat \<Rightarrow> 'w state \<Rightarrow> (val, unit) outcome \<times> 'w state" where
  "bindValues_loop run n i st =
     (if i < n then
        (case index (slice n st) i of
           Panics e \<Rightarrow> (Panics e, st)
         | Returns x \<Rightarrow>
             (case asValuer x of
                Some v \<Rightarrow>
                  (case run v st of
                     (Panics e, st') \<Rightarrow> (Panics e, st')
                   | (Returns y, st') \<Rightarrow>
                       bindValues_loop run n (i + 2) (st'\<lparr>cells := (cells st')(i := y)\<rparr>))
              | None \<Rightarrow> bindValues_loop run n (i + 2) st))
      else (Returns (), st))"
  by pat_completeness auto
termination
  by (relation "measure (\<lambda>(run, n, i, st). n - i)") auto

declare bindValues_loop.simps [simp del]

definition bindValues ::
  "'w closures \<Rightarrow> nat \<Rightarrow> 'w state \<Rightarrow> (val, unit) outcome \<times> 'w state" where
  "bindValues run n st = bindValues_loop run n 1 st"

text \<open>
  \<^verbatim>\<open>
  func containsValuer(keyvals []interface{}) bool {
      for i := 1; i < len(keyvals); i += 2 {
          if _, ok := keyvals[i].(Valuer); ok {
              return true
          }
      }
      return false
  }
  \<close>
  The function assigns to nothing and calls nothing: while it runs the contents of
  the slice stay what they are, and it is a function of these contents, the list
  \<open>keyvals\<close>. It takes no state and gives none back.
\<close>

function containsValuer_loop :: "nat \<Rightarrow> val list \<Rightarrow> (val, bool) outcome" where
  "containsValuer_loop i keyvals =
     (if i < length keyvals then
        (case index keyvals i of
           Panics e \<Rightarrow> Panics e
         | Returns x \<Rightarrow>
             (case asValuer x of
                Some v \<Rightarrow> Returns True
              | None \<Rightarrow> containsValuer_loop (i + 2) keyvals))
      else Returns False)"
  by pat_completeness auto
termination
  by (relation "measure (\<lambda>(i, keyvals). length keyvals - i)") auto

declare containsValuer_loop.simps [simp del]

definition containsValuer :: "val list \<Rightarrow> (val, bool) outcome" where
  "containsValuer keyvals = containsValuer_loop 1 keyvals"

text \<open>
  \<^verbatim>\<open>
  func Timestamp(t func() time.Time) Valuer {
      return func() interface{} { return t() }
  }
  func TimestampFormat(t func() time.Time, layout string) Valuer {
      return func() interface{} { return TimeFormat{Time: t(), Layout: layout} }
  }
  \<close>
  What the returned closure does when it is called. The time source \<open>t\<close> is a closure
  as well: it reads the clock of the world, and may panic.
\<close>

definition Timestamp :: "('w state \<Rightarrow> (val, Time) outcome \<times> 'w state) \<Rightarrow> 'w behaviour" where
  "Timestamp t =
     (\<lambda>st. case t st of
        (Panics e, st') \<Rightarrow> (Panics e, st')
      | (Returns now, st') \<Rightarrow> (Returns (TimeV now), st'))"

definition TimestampFormat ::
  "('w state \<Rightarrow> (val, Time) outcome \<times> 'w state) \<Rightarrow> string \<Rightarrow> 'w behaviour" where
  "TimestampFormat t layout =
     (\<lambda>st. case t st of
        (Panics e, st') \<Rightarrow> (Panics e, st')
      | (Returns now, st') \<Rightarrow> (Returns (TimeFormatV \<lparr>Time = now, Layout = layout\<rparr>), st'))"

text \<open>
  One slot of the loop, and the slots of a list of indices one after the other, until
  a Valuer panics: the order of the loop, said without the loop.
\<close>

definition bind_slot :: "'w closures \<Rightarrow> nat \<Rightarrow> 'w state \<Rightarrow> (val, unit) outcome \<times> 'w state" where
  "bind_slot run j st =
     (case asValuer (cells st j) of
        None \<Rightarrow> (Returns (), st)
      | Some v \<Rightarrow>
          (case run v st of
             (Panics e, st') \<Rightarrow> (Panics e, st')
           | (Returns y, st') \<Rightarrow> (Returns (), st'\<lparr>cells := (cells st')(j := y)\<rparr>)))"

fun bind_slots :: "'w closures \<Rightarrow> nat list \<Rightarrow> 'w state \<Rightarrow> (val, unit) outcome \<times> 'w state" where
  "bind_slots run [] st = (Returns (), st)"
| "bind_slots run (j # js) st =
     (case bind_slot run j st of
        (Panics e, st') \<Rightarrow> (Panics e, st')
      | (Returns u, st') \<Rightarrow> bind_slots run js st')"

text \<open>The indices the loop visits when it starts at \<open>i\<close> on a slice of length \<open>n\<close>.\<close>

definition visited :: "nat \<Rightarrow> nat \<Rightarrow> nat list" where
  "visited i n = filter (\<lambda>j. even (i + j)) [i..<n]"

text \<open>
  A closure keeps the slice when, called in whatever state, it leaves the cells below
  \<open>n\<close> as it found them, whether it returns or panics. The slice is framed when the
  Valuers in its odd slots keep it.
\<close>

definition keeps_slice :: "'w closures \<Rightarrow> nat \<Rightarrow> closure \<Rightarrow> bool" where
  "keeps_slice run n v = (\<forall>st a. a < n \<longrightarrow> cells (snd (run v st)) a = cells st a)"

definition framed :: "'w closures \<Rightarrow> nat \<Rightarrow> 'w state \<Rightarrow> bool" where
  "framed run n st =
     (\<forall>j v. odd j \<and> j < n \<and> cells st j = Valuer v \<longrightarrow> keeps_slice run n v)"

text \<open>
  The closures of an example program, over a world that counts calls. \<open>tick\<close> returns
  the count so far and adds one to it; \<open>boom\<close> panics; \<open>nested\<close> returns the Valuer
  \<open>tick\<close>; \<open>vandal\<close> holds the slice that is being bound, writes its slots 0 and 5
  and returns; \<open>saboteur\<close> holds it too, writes its slots 1 and 4 and panics.
\<close>

definition tick :: closure where "tick = 0"

definition boom :: closure where "boom = 1"

definition nested :: closure where "nested = 2"

definition vandal :: closure where "vandal = 3"

definition saboteur :: closure where "saboteur = 4"

definition example_closures :: "nat closures" where
  "example_closures c st =
     (if c = tick then (Returns (IntV (int (world st))), st\<lparr>world := Suc (world st)\<rparr>)
      else if c = boom then (Panics (ErrorV ''boom''), st)
      else if c = nested then (Returns (Valuer tick), st)
      else if c = vandal then
        (Returns (IntV 7), st\<lparr>cells := (cells st)(0 := StrV ''hacked'', 5 := StrV ''gone'')\<rparr>)
      else if c = saboteur then
        (Panics (ErrorV ''boom''), st\<lparr>cells := (cells st)(1 := Valuer tick, 4 := StrV ''hacked'')\<rparr>)
      else (Returns NilV, st))"

subsection \<open>TimeFormat\<close>

text \<open>A Go \<open>error\<close>; \<open>nil\<close> is \<open>None\<close> of \<open>error option\<close>.\<close>

datatype error = ErrUnknown | ErrOther string

text \<open>
  \<open>time.Time.AppendFormat\<close> and \<open>time.Time.Format\<close> belong to the Go standard library.
  The layout engine is a parameter: \<open>appendFormat t b layout\<close> is the buffer \<open>b\<close>
  extended with the text of the instant \<open>t\<close> in \<open>layout\<close>. The library defines
  \<open>Format\<close> from it, formatting into an empty buffer and converting the bytes to a
  string; a \<open>[]byte\<close> and a \<open>string\<close> are both lists of bytes here.
\<close>

type_synonym AppendFormat = "Time \<Rightarrow> string \<Rightarrow> string \<Rightarrow> string"

definition Time_Format :: "AppendFormat \<Rightarrow> Time \<Rightarrow> string \<Rightarrow> string" where
  "Time_Format appendFormat t layout = appendFormat t [] layout"

text \<open>
  \<^verbatim>\<open>
  func (tf TimeFormat) String() string {
      return tf.Time.Format(tf.Layout)
  }
  func (tf TimeFormat) MarshalText() (text []byte, err error) {
      b := make([]byte, 0, len(tf.Layout)+10)
      b = tf.Time.AppendFormat(b, tf.Layout)
      return b, nil
  }
  \<close>
  \<open>make([]byte, 0, n)\<close> is a slice of length 0; its capacity is not part of its
  contents.
\<close>

definition TimeFormat_String :: "AppendFormat \<Rightarrow> TimeFormat \<Rightarrow> string" where
  "TimeFormat_String appendFormat tf = Time_Format appendFormat (Time tf) (Layout tf)"

definition TimeFormat_MarshalText ::
  "AppendFormat \<Rightarrow> TimeFormat \<Rightarrow> string \<times> error option" where
  "TimeFormat_MarshalText appendFormat tf =
     (let b = [];
          b = appendFormat (Time tf) b (Layout tf)
      in (b, None))"

text \<open>A layout engine to run examples with: the layout, then the zone of the instant.\<close>

definition example_appendFormat :: AppendFormat where
  "example_appendFormat t b layout = b @ layout @ ''@'' @ zone t"

section \<open>The in-memory voyage repository (examples/shipping/inmem/voyageRepository.go)\<close>

text \<open>
  Modelled from the spec: the package \<open>voyage\<close> (the types \<open>Number\<close> and \<open>Voyage\<close>, the
  sentinel \<open>ErrUnknown\<close> and the sample voyages \<open>V100\<close>, ..., \<open>V0400S\<close>) is not among
  the sources. The spec speaks of records found by an identifier of type \<open>Number\<close>, of
  a sentinel \<open>ErrUnknown\<close> error (the constructor \<open>ErrUnknown\<close> above) and of a fixed,
  hardcoded set of named records. The repository reads one field of a record, its
  \<open>Number\<close>; \<open>Schedule\<close> stands for the rest. The eight sample voyages are a
  parameter, \<open>sample_voyages\<close>.

  A \<open>*voyage.Voyage\<close> is \<open>nil\<close> (\<open>None\<close>) or points to a record (\<open>Some v\<close>).
\<close>

type_synonym Number = string

record Voyage =
  Number :: Number
  Schedule :: "string list"

record sample_voyages =
  V100 :: "Voyage option"
  V300 :: "Voyage option"
  V400 :: "Voyage option"
  V0100S :: "Voyage option"
  V0200T :: "Voyage option"
  V0300A :: "Voyage option"
  V0301S :: "Voyage option"
  V0400S :: "Voyage option"

text \<open>\<open>type voyageRepository struct { voyages map[voyage.Number]*voyage.Voyage }\<close>\<close>

record voyageRepository =
  voyages :: "Number \<rightharpoonup> Voyage option"

text \<open>
  \<^verbatim>\<open>
  func (r *voyageRepository) Find(voyageNumber voyage.Number) (*voyage.Voyage, error) {
      if v, ok := r.voyages[voyageNumber]; ok {
          return v, nil
      }
      return nil, voyage.ErrUnknown
  }
  \<close>
  The receiver is the repository a constructor returned, never \<open>nil\<close>.
\<close>

definition Find :: "voyageRepository \<Rightarrow> Number \<Rightarrow> Voyage option \<times> error option" where
  "Find r voyageNumber =
     (case voyages r voyageNumber of
        Some v \<Rightarrow> (v, None)
      | None \<Rightarrow> (None, Some ErrUnknown))"

text \<open>
  One line of the constructor, \<open>r.voyages[p.Number] = p\<close>. Reading \<open>p.Number\<close> through
  a \<open>nil\<close> pointer panics; it is the only panic of the constructor, and \<open>None\<close>
  stands for it.
\<close>

definition put :: "voyageRepository \<Rightarrow> Voyage option \<Rightarrow> voyageRepository option" where
  "put r p =
     (case p of
        None \<Rightarrow> None
      | Some v \<Rightarrow> Some (r\<lparr>voyages := (voyages r)(Number v \<mapsto> p)\<rparr>))"

text \<open>
  \<^verbatim>\<open>
  func NewVoyageRepository() voyage.Repository {
      r := &voyageRepository{voyages: make(map[voyage.Number]*voyage.Voyage)}
      r.voyages[voyage.V100.Number] = voyage.V100
      r.voyages[voyage.V300.Number] = voyage.V300
      r.voyages[voyage.V400.Number] = voyage.V400
      r.voyages[voyage.V0100S.Number] = voyage.V0100S
      r.voyages[voyage.V0200T.Number] = voyage.V0200T
      r.voyages[voyage.V0300A.Number] = voyage.V0300A
      r.voyages[voyage.V0301S.Number] = voyage.V0301S
      r.voyages[voyage.V0400S.Number] = voyage.V0400S
      return r
  }
  \<close>
\<close>

definition NewVoyageRepository :: "sample_voyages \<Rightarrow> voyageRepository option" where
  "NewVoyageRepository sv = do {
     let r = \<lparr>voyages = Map.empty\<rparr>;
     r \<leftarrow> put r (V100 sv);
     r \<leftarrow> put r (V300 sv);
     r \<leftarrow> put r (V400 sv);
     r \<leftarrow> put r (V0100S sv);
     r \<leftarrow> put r (V0200T sv);
     r \<leftarrow> put r (V0300A sv);
     r \<leftarrow> put r (V0301S sv);
     r \<leftarrow> put r (V0400S sv);
     Some r
   }"

text \<open>The sample voyages in the order the constructor stores them.\<close>

definition preloaded :: "sample_voyages \<Rightarrow> Voyage option list" where
  "preloaded sv =
     [V100 sv, V300 sv, V400 sv, V0100S sv, V0200T sv, V0300A sv, V0301S sv, V0400S sv]"

text \<open>Storing a list of pointers one after the other; the constructor is an instance.\<close>

fun put_all :: "voyageRepository \<Rightarrow> Voyage option list \<Rightarrow> voyageRepository option" where
  "put_all r [] = Some r"
| "put_all r (p # ps) = (case put r p of None \<Rightarrow> None | Some r' \<Rightarrow> put_all r' ps)"

text \<open>Eight sample voyages with pairwise different numbers, and the repository built from them.\<close>

definition example_voyages :: sample_voyages where
  "example_voyages =
     \<lparr>V100 = Some \<lparr>Number = ''V100'', Schedule = [''Hongkong'', ''Tokyo'', ''New York'']\<rparr>,
      V300 = Some \<lparr>Number = ''V300'', Schedule = [''Tokyo'', ''Rotterdam'', ''Hamburg'']\<rparr>,
      V400 = Some \<lparr>Number = ''V400'', Schedule = [''Hamburg'', ''Stockholm'', ''Helsinki'']\<rparr>,
      V0100S = Some \<lparr>Number = ''0100S'', Schedule = []\<rparr>,
      V0200T = Some \<lparr>Number = ''0200T'', Schedule = []\<rparr>,
      V0300A = Some \<lparr>Number = ''0300A'', Schedule = []\<rparr>,
      V0301S = Some \<lparr>Number = ''0301S'', Schedule = []\<rparr>,
      V0400S = Some \<lparr>Number = ''0400S'', Schedule = []\<rparr>\<rparr>"

definition example_repository :: voyageRepository where
  "example_repository =
     \<lparr>voyages = [''V100'' \<mapsto> V100 example_voyages, ''V300'' \<mapsto> V300 example_voyages,
                 ''V400'' \<mapsto> V400 example_voyages, ''0100S'' \<mapsto> V0100S example_voyages,
                 ''0200T'' \<mapsto> V0200T example_voyages, ''0300A'' \<mapsto> V0300A example_voyages,
                 ''0301S'' \<mapsto> V0301S example_voyages, ''0400S'' \<mapsto> V0400S example_voyages]\<rparr>"

section \<open>Basic facts\<close>

lemma index_in_range [simp]:
  "i < length keyvals \<Longrightarrow> index keyvals i = Returns (keyvals ! i)"
  by (simp add: index_def)

lemma isValuer_simps [simp]:
  "isValuer (Valuer v)" "\<not> isValuer NilV" "\<not> isValuer (BoolV b)" "\<not> isValuer (IntV n)"
  "\<not> isValuer (StrV str)" "\<not> isValuer (TimeV tm)" "\<not> isValuer (TimeFormatV tf)"
  "\<not> isValuer (ErrorV msg)" "\<not> isValuer (FuncV f)"
  by (simp_all add: isValuer_def)

lemma asValuer_Some_iff: "asValuer x = Some v \<longleftrightarrow> x = Valuer v"
  by (cases x) simp_all

lemma asValuer_None_iff: "asValuer x = None \<longleftrightarrow> \<not> isValuer x"
  by (simp add: isValuer_def)

lemma odd_slot_iff: "(1 \<le> j \<and> even (1 + j)) = odd (j::nat)"
  by (cases j) auto

lemma length_slice [simp]: "length (slice n st) = n"
  by (simp add: slice_def)

lemma nth_slice [simp]: "a < n \<Longrightarrow> slice n st ! a = cells st a"
  by (simp add: slice_def)

lemma index_slice [simp]: "i < n \<Longrightarrow> index (slice n st) i = Returns (cells st i)"
  by simp

section \<open>Scanning for Valuers\<close>

text \<open>
  Started at index \<open>i\<close>, the scan looks at the slots \<open>i\<close>, \<open>i + 2\<close>, \<open>i + 4\<close>, ... and
  answers whether one of them holds a Valuer.
\<close>

lemma containsValuer_loop_iff:
  "containsValuer_loop i keyvals =
     Returns (\<exists>j. i \<le> j \<and> j < length keyvals \<and> even (i + j) \<and> isValuer (keyvals ! j))"
proof (induction i keyvals rule: containsValuer_loop.induct)
  case (1 i keyvals)
  show ?case
  proof (cases "i < length keyvals")
    case False
    then show ?thesis by (subst containsValuer_loop.simps) auto
  next
    case inr: True
    show ?thesis
    proof (cases "asValuer (keyvals ! i)")
      case (Some v)
      then have "isValuer (keyvals ! i)" by (simp add: isValuer_def)
      with inr have "\<exists>j. i \<le> j \<and> j < length keyvals \<and> even (i + j) \<and> isValuer (keyvals ! j)"
        by (intro exI[of _ i]) simp
      with inr Some show ?thesis by (subst containsValuer_loop.simps) simp
    next
      case None
      then have nv: "\<not> isValuer (keyvals ! i)" by (simp add: isValuer_def)
      have "(\<exists>j. i + 2 \<le> j \<and> j < length keyvals \<and> even (i + 2 + j) \<and> isValuer (keyvals ! j))
          = (\<exists>j. i \<le> j \<and> j < length keyvals \<and> even (i + j) \<and> isValuer (keyvals ! j))"
        (is "?L = ?R")
      proof
        assume ?L
        then obtain j where
          "i + 2 \<le> j" "j < length keyvals" "even (i + 2 + j)" "isValuer (keyvals ! j)"
          by blast
        then have "i \<le> j \<and> j < length keyvals \<and> even (i + j) \<and> isValuer (keyvals ! j)"
          by simp
        then show ?R by blast
      next
        assume ?R
        then obtain j where
          j: "i \<le> j" "j < length keyvals" "even (i + j)" "isValuer (keyvals ! j)"
          by blast
        with nv have "j \<noteq> i" by auto
        moreover from j have "j \<noteq> i + 1" by auto
        ultimately have "i + 2 \<le> j" using j(1) by arith
        with j have
          "i + 2 \<le> j \<and> j < length keyvals \<and> even (i + 2 + j) \<and> isValuer (keyvals ! j)"
          by simp
        then show ?L by blast
      qed
      with inr None "1.IH"[OF inr index_in_range[OF inr] None] show ?thesis
        by (subst containsValuer_loop.simps) simp
    qed
  qed
qed

lemma containsValuer_eq:
  "containsValuer keyvals = Returns (\<exists>j<length keyvals. odd j \<and> isValuer (keyvals ! j))"
proof -
  have "(\<exists>j. 1 \<le> j \<and> j < length keyvals \<and> even (1 + j) \<and> isValuer (keyvals ! j))
      = (\<exists>j<length keyvals. odd j \<and> isValuer (keyvals ! j))"
    using odd_slot_iff by blast
  then show ?thesis by (simp add: containsValuer_def containsValuer_loop_iff)
qed

text \<open>
  C2. For every key-value sequence, \<open>containsValuer\<close> returns true if and only if at
  least one odd-index slot holds a Valuer. It returns false for the empty sequence and
  for a sequence whose odd slots are all static. It hands back a boolean and nothing
  else: the sequence is not touched.
\<close>

theorem containsValuer_iff_odd_slot_Valuer:
  "containsValuer (keyvals :: val list) = Returns (\<exists>j<length keyvals. odd j \<and> isValuer (keyvals ! j))
   \<and> containsValuer ([] :: val list) = Returns False
   \<and> ((\<forall>j<length keyvals. odd j \<longrightarrow> \<not> isValuer (keyvals ! j))
        \<longrightarrow> containsValuer keyvals = Returns False)"
proof -
  have main: "\<And>kvs :: val list.
      containsValuer kvs = Returns (\<exists>j<length kvs. odd j \<and> isValuer (kvs ! j))"
    by (rule containsValuer_eq)
  have "containsValuer ([] :: val list) = Returns False"
    by (simp add: main)
  moreover have "(\<forall>j<length keyvals. odd j \<longrightarrow> \<not> isValuer (keyvals ! j))
        \<longrightarrow> containsValuer keyvals = Returns False"
  proof
    assume "\<forall>j<length keyvals. odd j \<longrightarrow> \<not> isValuer (keyvals ! j)"
    then have none: "(\<exists>j<length keyvals. odd j \<and> isValuer (keyvals ! j)) = False" by blast
    show "containsValuer keyvals = Returns False" unfolding main none by (rule refl)
  qed
  ultimately show ?thesis using main by blast
qed

theorem containsValuer_iff_odd_slot_Valuer_witness:
  "containsValuer [StrV ''level'', StrV ''info'', Valuer tick, IntV 7
                   :: val] = Returns False
   \<and> containsValuer [StrV ''level'', StrV ''info'', StrV ''ts'', Valuer tick
                   :: val] = Returns True"
proof -
  let ?a = "[StrV ''level'', StrV ''info'', Valuer tick, IntV 7 :: val]"
  let ?b = "[StrV ''level'', StrV ''info'', StrV ''ts'', Valuer tick :: val]"
  have static: "\<forall>j<length ?a. odd j \<longrightarrow> \<not> isValuer (?a ! j)"
    by (auto simp: less_Suc_eq)
  have dyn: "(\<exists>j<length ?b. odd j \<and> isValuer (?b ! j)) = True"
    by (simp, intro exI[of _ 3], simp)
  have "containsValuer ?a = Returns False"
    using containsValuer_iff_odd_slot_Valuer [of ?a] static by blast
  moreover have "containsValuer ?b = Returns (\<exists>j<length ?b. odd j \<and> isValuer (?b ! j))"
    using containsValuer_iff_odd_slot_Valuer [of ?b] by blast
  then have "containsValuer ?b = Returns True"
    unfolding dyn .
  ultimately show ?thesis by blast
qed

section \<open>Scanning invokes nothing\<close>

text \<open>
  C8. \<open>containsValuer\<close> never invokes a Valuer. Its embedding takes no state and
  returns none, so a scan has no effect on the world; it never panics; and its
  result is the same on two slices that agree on which odd slots hold a Valuer,
  whatever those Valuers would return or do, and also if they would panic.
\<close>

theorem containsValuer_ignores_what_Valuers_do:
  assumes "length keyvals' = length keyvals"
    and "\<forall>j<length keyvals. odd j \<longrightarrow> isValuer (keyvals' ! j) = isValuer (keyvals ! j)"
  shows "containsValuer keyvals' = containsValuer keyvals
       \<and> (\<exists>b. containsValuer keyvals = Returns b)"
proof -
  from assms have "(\<exists>j<length keyvals'. odd j \<and> isValuer (keyvals' ! j))
      = (\<exists>j<length keyvals. odd j \<and> isValuer (keyvals ! j))"
    by auto
  then have "containsValuer keyvals' = containsValuer keyvals"
    unfolding containsValuer_eq by (rule arg_cong)
  moreover have "\<exists>b. containsValuer keyvals = Returns b"
    unfolding containsValuer_eq by blast
  ultimately show ?thesis by blast
qed

text \<open>A Valuer that counts and a Valuer that panics are the same to the scan.\<close>

theorem containsValuer_ignores_what_Valuers_do_witness:
  "containsValuer [StrV ''k'', Valuer boom]
     = containsValuer [StrV ''k'', Valuer tick]
   \<and> containsValuer [StrV ''k'', Valuer tick] = Returns True"
proof -
  let ?a = "[StrV ''k'', Valuer tick]"
  let ?b = "[StrV ''k'', Valuer boom]"
  have len: "length ?b = length ?a" by simp
  have same: "\<forall>j<length ?a. odd j \<longrightarrow> isValuer (?b ! j) = isValuer (?a ! j)"
    by (auto simp: less_Suc_eq)
  have "containsValuer ?a = Returns True"
    by (simp add: containsValuer_def containsValuer_loop.simps)
  with containsValuer_ignores_what_Valuers_do [OF len same] show ?thesis by blast
qed

section \<open>Binding: one step of the loop, and induction along it\<close>

lemma loop_done: "\<not> i < n \<Longrightarrow> bindValues_loop run n i st = (Returns (), st)"
  by (subst bindValues_loop.simps) simp

lemma loop_static:
  "i < n \<Longrightarrow> \<not> isValuer (cells st i) \<Longrightarrow>
   bindValues_loop run n i st = bindValues_loop run n (i + 2) st"
  by (subst bindValues_loop.simps) (simp add: isValuer_def)

lemma loop_returns:
  "i < n \<Longrightarrow> cells st i = Valuer v \<Longrightarrow> run v st = (Returns y, st') \<Longrightarrow>
   bindValues_loop run n i st
     = bindValues_loop run n (i + 2) (st'\<lparr>cells := (cells st')(i := y)\<rparr>)"
  by (subst bindValues_loop.simps) simp

lemma loop_panics:
  "i < n \<Longrightarrow> cells st i = Valuer v \<Longrightarrow> run v st = (Panics e, st') \<Longrightarrow>
   bindValues_loop run n i st = (Panics e, st')"
  by (subst bindValues_loop.simps) simp

lemma loop_induct_aux:
  fixes run :: "'w closures"
  assumes finished: "\<And>i st. \<not> i < n \<Longrightarrow> P i st"
    and static: "\<And>i st. i < n \<Longrightarrow> \<not> isValuer (cells st i) \<Longrightarrow> P (i + 2) st \<Longrightarrow> P i st"
    and returns: "\<And>i st v y st'. i < n \<Longrightarrow> cells st i = Valuer v \<Longrightarrow>
                   run v st = (Returns y, st') \<Longrightarrow>
                   P (i + 2) (st'\<lparr>cells := (cells st')(i := y)\<rparr>) \<Longrightarrow> P i st"
    and panics: "\<And>i st v e st'. i < n \<Longrightarrow> cells st i = Valuer v \<Longrightarrow>
                   run v st = (Panics e, st') \<Longrightarrow> P i st"
  shows "r = run \<Longrightarrow> m = n \<Longrightarrow> P i (st :: 'w state)"
proof (induction r m i st rule: bindValues_loop.induct)
  case (1 r m i st)
  note eqs = "1.prems"
  show ?case
  proof (cases "i < n")
    case False
    then show ?thesis by (rule finished)
  next
    case inr: True
    with eqs have inm: "i < m" by simp
    from inr eqs have ix: "index (slice m st) i = Returns (cells st i)" by simp
    show ?thesis
    proof (cases "asValuer (cells st i)")
      case None
      then have "\<not> isValuer (cells st i)" by (simp add: isValuer_def)
      moreover have "P (i + 2) st" by (rule "1.IH"(1)[OF inm ix None eqs])
      ultimately show ?thesis by (rule static[OF inr])
    next
      case (Some v)
      then have slot: "cells st i = Valuer v" by (simp add: asValuer_Some_iff)
      obtain o1 st' where vs: "r v st = (o1, st')" by (cases "r v st")
      show ?thesis
      proof (cases o1)
        case (Panics e)
        with vs eqs have "run v st = (Panics e, st')" by simp
        with inr slot show ?thesis by (rule panics)
      next
        case (Returns y)
        with vs eqs have ret: "run v st = (Returns y, st')" by simp
        have "P (i + 2) (st'\<lparr>cells := (cells st')(i := y)\<rparr>)"
          by (rule "1.IH"(2)[OF inm ix Some vs[symmetric] Returns eqs])
        with inr slot ret show ?thesis by (rule returns)
      qed
    qed
  qed
qed

lemma loop_induct [case_names finished static returns panics]:
  fixes run :: "'w closures"
  assumes "\<And>i st. \<not> i < n \<Longrightarrow> P i st"
    and "\<And>i st. i < n \<Longrightarrow> \<not> isValuer (cells st i) \<Longrightarrow> P (i + 2) st \<Longrightarrow> P i st"
    and "\<And>i st v y st'. i < n \<Longrightarrow> cells st i = Valuer v \<Longrightarrow>
           run v st = (Returns y, st') \<Longrightarrow>
           P (i + 2) (st'\<lparr>cells := (cells st')(i := y)\<rparr>) \<Longrightarrow> P i st"
    and "\<And>i st v e st'. i < n \<Longrightarrow> cells st i = Valuer v \<Longrightarrow>
           run v st = (Panics e, st') \<Longrightarrow> P i st"
  shows "P i (st :: 'w state)"
  by (rule loop_induct_aux[where run = run and n = n and P = P, OF assms refl refl])

section \<open>Binding a shorter slice first\<close>

text \<open>
  The loop over the slice of length \<open>n\<close> is the loop over the slice of length \<open>j\<close> on
  the same array, followed by the loop from \<open>j\<close> on, when \<open>j\<close> is one of the indices
  the loop visits.
\<close>

lemma next_slot:
  fixes i j :: nat
  assumes "i \<le> j" and "even (i + j)" and "i \<noteq> j"
  shows "i + 2 \<le> j" and "even (i + 2 + j)"
proof -
  from assms(2) have "j \<noteq> i + 1" by auto
  with assms(1,3) show "i + 2 \<le> j" by arith
  from assms(2) show "even (i + 2 + j)" by simp
qed

lemma loop_split_returns:
  fixes run :: "'w closures"
  shows "i \<le> j \<Longrightarrow> even (i + j) \<Longrightarrow> j \<le> n \<Longrightarrow>
    bindValues_loop run j i st = (Returns (), t) \<Longrightarrow>
    bindValues_loop run n i st = bindValues_loop run n j t"
proof (induction i st rule: loop_induct[where run = run and n = j])
  case (finished i st)
  then have "i = j" by simp
  with finished.prems(4) loop_done[of j j run st] show ?case by simp
next
  case (static i st)
  from static.hyps(1) static.prems(3) have ne: "i \<noteq> j" and inn: "i < n" by simp_all
  note lt = next_slot[OF static.prems(1,2) ne] inn
  from loop_static[OF static.hyps, of run] static.prems(4)
  have "bindValues_loop run j (i + 2) st = (Returns (), t)" by simp
  from static.IH[OF lt(1,2) static.prems(3) this]
  show ?case by (simp only: loop_static[OF lt(3) static.hyps(2)])
next
  case (returns i st v y st')
  from returns.hyps(1) returns.prems(3) have ne: "i \<noteq> j" and inn: "i < n" by simp_all
  note lt = next_slot[OF returns.prems(1,2) ne] inn
  from loop_returns[where run = run, OF returns.hyps(1-3)] returns.prems(4)
  have "bindValues_loop run j (i + 2) (st'\<lparr>cells := (cells st')(i := y)\<rparr>) = (Returns (), t)"
    by simp
  from returns.IH[OF lt(1,2) returns.prems(3) this]
  show ?case by (simp only: loop_returns[where run = run, OF lt(3) returns.hyps(2,3)])
next
  case (panics i st v e st')
  from loop_panics[where run = run, OF panics.hyps] panics.prems(4) show ?case by simp
qed

lemma loop_split_panics:
  fixes run :: "'w closures"
  shows "i \<le> j \<Longrightarrow> even (i + j) \<Longrightarrow> j \<le> n \<Longrightarrow>
    bindValues_loop run j i st = (Panics e, t) \<Longrightarrow>
    bindValues_loop run n i st = (Panics e, t)"
proof (induction i st rule: loop_induct[where run = run and n = j])
  case (finished i st)
  with loop_done[of i j run st] show ?case by simp
next
  case (static i st)
  from static.hyps(1) static.prems(3) have ne: "i \<noteq> j" and inn: "i < n" by simp_all
  note lt = next_slot[OF static.prems(1,2) ne] inn
  from loop_static[OF static.hyps, of run] static.prems(4)
  have "bindValues_loop run j (i + 2) st = (Panics e, t)" by simp
  from static.IH[OF lt(1,2) static.prems(3) this]
  show ?case by (simp only: loop_static[OF lt(3) static.hyps(2)])
next
  case (returns i st v y st')
  from returns.hyps(1) returns.prems(3) have ne: "i \<noteq> j" and inn: "i < n" by simp_all
  note lt = next_slot[OF returns.prems(1,2) ne] inn
  from loop_returns[where run = run, OF returns.hyps(1-3)] returns.prems(4)
  have "bindValues_loop run j (i + 2) (st'\<lparr>cells := (cells st')(i := y)\<rparr>) = (Panics e, t)"
    by simp
  from returns.IH[OF lt(1,2) returns.prems(3) this]
  show ?case by (simp only: loop_returns[where run = run, OF lt(3) returns.hyps(2,3)])
next
  case (panics i st v e' st')
  from panics.hyps(1) panics.prems(3) have "i < n" by simp
  from loop_panics[where run = run, OF panics.hyps] panics.prems(4) loop_panics[where run = run, OF this panics.hyps(2,3)]
  show ?case by simp
qed

section \<open>Valuers that keep the slice\<close>

text \<open>
  When the Valuers in the slots that the loop visits leave the cells below \<open>m\<close> alone,
  the loop changes no cell below \<open>m\<close> but the visited slots that hold a Valuer.
\<close>

lemma loop_frame:
  fixes run :: "'w closures"
  assumes "n \<le> m" and "a < m"
  shows "(\<forall>k v. i \<le> k \<and> even (i + k) \<and> k < n \<and> cells st k = Valuer v \<longrightarrow> keeps_slice run m v) \<Longrightarrow>
    a < i \<or> odd (i + a) \<or> n \<le> a \<or> \<not> isValuer (cells st a) \<Longrightarrow>
    cells (snd (bindValues_loop run n i st)) a = cells st a"
proof (induction i st rule: loop_induct[where run = run and n = n])
  case (finished i st)
  then show ?case by (simp add: loop_done)
next
  case (static i st)
  have "\<forall>k v. i + 2 \<le> k \<and> even (i + 2 + k) \<and> k < n \<and> cells st k = Valuer v
          \<longrightarrow> keeps_slice run m v"
  proof (intro allI impI)
    fix k v
    assume "i + 2 \<le> k \<and> even (i + 2 + k) \<and> k < n \<and> cells st k = Valuer v"
    then have "i \<le> k \<and> even (i + k) \<and> k < n \<and> cells st k = Valuer v" by simp
    with static.prems(1) show "keeps_slice run m v" by blast
  qed
  moreover from static.prems(2)
  have "a < i + 2 \<or> odd (i + 2 + a) \<or> n \<le> a \<or> \<not> isValuer (cells st a)" by auto
  ultimately have "cells (snd (bindValues_loop run n (i + 2) st)) a = cells st a"
    by (rule static.IH)
  then show ?case by (simp only: loop_static[OF static.hyps])
next
  case (returns i st v y st')
  let ?st2 = "st'\<lparr>cells := (cells st')(i := y)\<rparr>"
  from returns.hyps(1,2) have "i \<le> i \<and> even (i + i) \<and> i < n \<and> cells st i = Valuer v" by simp
  with returns.prems(1) have "keeps_slice run m v" by blast
  with returns.hyps(3) have kept: "\<And>b. b < m \<Longrightarrow> cells st' b = cells st b"
    by (auto simp: keeps_slice_def dest: spec[of _ st])
  from returns.prems(2) returns.hyps(1,2) have ne: "a \<noteq> i" by auto
  have "\<forall>k w. i + 2 \<le> k \<and> even (i + 2 + k) \<and> k < n \<and> cells ?st2 k = Valuer w
          \<longrightarrow> keeps_slice run m w"
  proof (intro allI impI)
    fix k w
    assume k: "i + 2 \<le> k \<and> even (i + 2 + k) \<and> k < n \<and> cells ?st2 k = Valuer w"
    with assms(1) have "k < m" "k \<noteq> i" by simp_all
    with k kept[of k] have "cells st k = Valuer w" by simp
    with k have "i \<le> k \<and> even (i + k) \<and> k < n \<and> cells st k = Valuer w" by simp
    with returns.prems(1) show "keeps_slice run m w" by blast
  qed
  moreover from returns.prems(2) ne kept[OF assms(2)]
  have "a < i + 2 \<or> odd (i + 2 + a) \<or> n \<le> a \<or> \<not> isValuer (cells ?st2 a)" by auto
  ultimately have "cells (snd (bindValues_loop run n (i + 2) ?st2)) a = cells ?st2 a"
    by (rule returns.IH)
  also from ne kept[OF assms(2)] have "\<dots> = cells st a" by simp
  finally show ?case by (simp only: loop_returns[where run = run, OF returns.hyps(1-3)])
next
  case (panics i st v e st')
  from panics.hyps(1,2) have "i \<le> i \<and> even (i + i) \<and> i < n \<and> cells st i = Valuer v" by simp
  with panics.prems(1) have "keeps_slice run m v" by blast
  with panics.hyps(3) assms(2) have "cells st' a = cells st a"
    by (auto simp: keeps_slice_def dest: spec[of _ st])
  then show ?case by (simp add: loop_panics[where run = run, OF panics.hyps])
qed

lemma keeps_slice_mono: "keeps_slice run n v \<Longrightarrow> j \<le> n \<Longrightarrow> keeps_slice run j v"
  by (simp add: keeps_slice_def)

lemma framed_mono: "framed run n st \<Longrightarrow> j \<le> n \<Longrightarrow> framed run j st"
  unfolding framed_def by (meson keeps_slice_mono le_trans less_le_trans not_le)

lemma framed_from:
  assumes "framed run m st" and "n \<le> m"
  shows "\<forall>k v. 1 \<le> k \<and> even (1 + k) \<and> k < n \<and> cells st k = Valuer v \<longrightarrow> keeps_slice run m v"
proof (intro allI impI)
  fix k v
  assume k: "1 \<le> k \<and> even (1 + k) \<and> k < n \<and> cells st k = Valuer v"
  then have "odd k" using odd_slot_iff[of k] by blast
  moreover from k assms(2) have "k < m" by simp
  ultimately have "odd k \<and> k < m \<and> cells st k = Valuer v" using k by simp
  with assms(1) show "keeps_slice run m v" unfolding framed_def by blast
qed

text \<open>Binding a framed slice changes no cell below its length but the odd Valuer slots.\<close>

lemma bindValues_frame:
  assumes "framed run m st" and "n \<le> m" and "a < m"
    and "even a \<or> n \<le> a \<or> \<not> isValuer (cells st a)"
  shows "cells (snd (bindValues run n st)) a = cells st a"
proof -
  from assms(4) have "a < 1 \<or> odd (1 + a) \<or> n \<le> a \<or> \<not> isValuer (cells st a)" by auto
  from loop_frame[OF assms(2,3) framed_from[OF assms(1,2)] this]
  show ?thesis by (simp add: bindValues_def)
qed

lemma loop_no_valuer:
  fixes run :: "'w closures"
  shows "(\<forall>j. i \<le> j \<and> even (i + j) \<and> j < n \<longrightarrow> \<not> isValuer (cells st j)) \<Longrightarrow>
    bindValues_loop run n i st = (Returns (), st)"
proof (induction i st rule: loop_induct[where run = run and n = n])
  case (finished i st)
  then show ?case by (simp only: loop_done[OF finished.hyps])
next
  case (static i st)
  from static.prems
  have "\<forall>j. i + 2 \<le> j \<and> even (i + 2 + j) \<and> j < n \<longrightarrow> \<not> isValuer (cells st j)"
    by auto
  then have "bindValues_loop run n (i + 2) st = (Returns (), st)" by (rule static.IH)
  then show ?case by (simp only: loop_static[OF static.hyps])
next
  case (returns i st v y st')
  from returns.prems returns.hyps(1) have "\<not> isValuer (cells st i)" by auto
  with returns.hyps(2) show ?case by simp
next
  case (panics i st v e st')
  from panics.prems panics.hyps(1) have "\<not> isValuer (cells st i)" by auto
  with panics.hyps(2) show ?case by simp
qed

section \<open>What binding does to the slots\<close>

text \<open>
  In a framed slice, binding the first \<open>j\<close> slots leaves the slots from \<open>j\<close> on as
  they were, so the slice stays framed.
\<close>

lemma prefix_keeps_later:
  assumes fr: "framed run n st" and j: "j \<le> n" and a: "j \<le> a" "a < n"
  shows "cells (snd (bindValues run j st)) a = cells st a"
  using bindValues_frame[OF fr j a(2)] a(1) by simp

text \<open>
  The Valuer of an odd slot \<open>j\<close> of a framed slice is invoked in the state that
  binding the first \<open>j\<close> slots leaves; when it returns there, the slot holds what it
  returned from then on, whatever happens at the later slots.
\<close>

lemma bindValues_resolved:
  fixes run :: "'w closures"
  assumes fr: "framed run n st"
    and j: "odd j" "j < n" and slot: "cells st j = Valuer v"
    and pre: "bindValues run j st = (Returns (), t)"
    and ret: "run v t = (Returns y, t')"
  shows "cells (snd (bindValues run n st)) j = y"
proof -
  from j have ij: "1 \<le> j" "even (1 + j)" "j \<le> n"
    by (simp_all add: Suc_leI odd_pos)
  from pre have pre': "bindValues_loop run j 1 st = (Returns (), t)"
    unfolding bindValues_def .
  have later: "cells t a = cells st a" if "j \<le> a" "a < n" for a
    using prefix_keeps_later[OF fr ij(3) that] pre by simp
  from later[of j] j(2) slot have here: "cells t j = Valuer v" by simp
  let ?u = "t'\<lparr>cells := (cells t')(j := y)\<rparr>"
  from fr j slot have keeps: "keeps_slice run n v" unfolding framed_def by blast
  with ret have kept: "cells t' a = cells t a" if "a < n" for a
    using that by (auto simp: keeps_slice_def dest: spec[of _ t])
  have "bindValues run n st = bindValues_loop run n j t"
    unfolding bindValues_def by (rule loop_split_returns[OF ij pre'])
  also have "\<dots> = bindValues_loop run n (j + 2) ?u"
    by (rule loop_returns[where run = run, OF j(2) here ret])
  finally have whole: "bindValues run n st = bindValues_loop run n (j + 2) ?u" .
  have "\<forall>k w. j + 2 \<le> k \<and> even (j + 2 + k) \<and> k < n \<and> cells ?u k = Valuer w
          \<longrightarrow> keeps_slice run n w"
  proof (intro allI impI)
    fix k w
    assume k: "j + 2 \<le> k \<and> even (j + 2 + k) \<and> k < n \<and> cells ?u k = Valuer w"
    then have "k \<noteq> j" "j \<le> k" "k < n" by simp_all
    with k kept[of k] later[of k] have "cells st k = Valuer w" by simp
    moreover from k j(1) have "odd k" by simp
    ultimately show "keeps_slice run n w" using fr k unfolding framed_def by blast
  qed
  moreover have "j < j + 2 \<or> odd (j + 2 + j) \<or> n \<le> j \<or> \<not> isValuer (cells ?u j)" by simp
  ultimately have "cells (snd (bindValues_loop run n (j + 2) ?u)) j = cells ?u j"
    by (rule loop_frame[OF order_refl j(2)])
  with whole show ?thesis by simp
qed

text \<open>When binding a framed slice returns, every Valuer of an odd slot was invoked and returned.\<close>

lemma bindValues_returned:
  fixes run :: "'w closures"
  assumes fr: "framed run n st"
    and res: "bindValues run n st = (Returns (), st')"
    and j: "odd j" "j < n" and slot: "cells st j = Valuer v"
  shows "\<exists>t t'. bindValues run j st = (Returns (), t) \<and> run v t = (Returns (cells st' j), t')"
proof -
  from j have ij: "1 \<le> j" "even (1 + j)" "j \<le> n"
    by (simp_all add: Suc_leI odd_pos)
  from res have res': "bindValues_loop run n 1 st = (Returns (), st')"
    unfolding bindValues_def .
  obtain r0 t where pref: "bindValues_loop run j 1 st = (r0, t)"
    by (cases "bindValues_loop run j 1 st")
  have r0: "r0 = Returns ()"
  proof (cases r0)
    case (Panics e)
    with pref have "bindValues_loop run j 1 st = (Panics e, t)" by simp
    from loop_split_panics[OF ij this] res' show ?thesis by simp
  next
    case (Returns u)
    then show ?thesis by simp
  qed
  with pref have pre: "bindValues run j st = (Returns (), t)" by (simp add: bindValues_def)
  from prefix_keeps_later[OF fr ij(3) order_refl j(2)] pre slot
  have here: "cells t j = Valuer v" by simp
  from pre have "bindValues_loop run n 1 st = bindValues_loop run n j t"
    unfolding bindValues_def by (rule loop_split_returns[OF ij])
  with res' have rest: "bindValues_loop run n j t = (Returns (), st')" by simp
  obtain r1 t' where vt: "run v t = (r1, t')" by (cases "run v t")
  show ?thesis
  proof (cases r1)
    case (Panics e)
    with vt have "run v t = (Panics e, t')" by simp
    from loop_panics[where run = run, OF j(2) here this] rest show ?thesis by simp
  next
    case (Returns y)
    with vt have ret: "run v t = (Returns y, t')" by simp
    from bindValues_resolved[OF fr j slot pre ret] res have "cells st' j = y" by simp
    with pre ret show ?thesis by blast
  qed
qed

text \<open>Binding a framed slice returns when none of the Valuers in its odd slots ever panics.\<close>

lemma loop_total:
  fixes run :: "'w closures"
  shows "(\<forall>k v. i \<le> k \<and> even (i + k) \<and> k < n \<and> cells st k = Valuer v \<longrightarrow>
       keeps_slice run n v \<and> (\<forall>u. \<exists>y u'. run v u = (Returns y, u'))) \<Longrightarrow>
    fst (bindValues_loop run n i st) = Returns ()"
proof (induction i st rule: loop_induct[where run = run and n = n])
  case (finished i st)
  then show ?case by (simp add: loop_done)
next
  case (static i st)
  have "\<forall>k v. i + 2 \<le> k \<and> even (i + 2 + k) \<and> k < n \<and> cells st k = Valuer v \<longrightarrow>
       keeps_slice run n v \<and> (\<forall>u. \<exists>y u'. run v u = (Returns y, u'))"
  proof (intro allI impI)
    fix k v
    assume "i + 2 \<le> k \<and> even (i + 2 + k) \<and> k < n \<and> cells st k = Valuer v"
    then have "i \<le> k \<and> even (i + k) \<and> k < n \<and> cells st k = Valuer v" by simp
    with static.prems show "keeps_slice run n v \<and> (\<forall>u. \<exists>y u'. run v u = (Returns y, u'))"
      by blast
  qed
  then have "fst (bindValues_loop run n (i + 2) st) = Returns ()" by (rule static.IH)
  then show ?case by (simp only: loop_static[OF static.hyps])
next
  case (returns i st v y st')
  let ?st2 = "st'\<lparr>cells := (cells st')(i := y)\<rparr>"
  from returns.hyps(1,2) have "i \<le> i \<and> even (i + i) \<and> i < n \<and> cells st i = Valuer v" by simp
  with returns.prems have "keeps_slice run n v" by blast
  with returns.hyps(3) have kept: "\<And>b. b < n \<Longrightarrow> cells st' b = cells st b"
    by (auto simp: keeps_slice_def dest: spec[of _ st])
  have "\<forall>k w. i + 2 \<le> k \<and> even (i + 2 + k) \<and> k < n \<and> cells ?st2 k = Valuer w \<longrightarrow>
       keeps_slice run n w \<and> (\<forall>u. \<exists>y u'. run w u = (Returns y, u'))"
  proof (intro allI impI)
    fix k w
    assume k: "i + 2 \<le> k \<and> even (i + 2 + k) \<and> k < n \<and> cells ?st2 k = Valuer w"
    then have "k < n" "k \<noteq> i" by simp_all
    with k kept[of k] have "cells st k = Valuer w" by simp
    with k have "i \<le> k \<and> even (i + k) \<and> k < n \<and> cells st k = Valuer w" by simp
    with returns.prems show "keeps_slice run n w \<and> (\<forall>u. \<exists>y u'. run w u = (Returns y, u'))"
      by blast
  qed
  then have "fst (bindValues_loop run n (i + 2) ?st2) = Returns ()" by (rule returns.IH)
  then show ?case by (simp only: loop_returns[where run = run, OF returns.hyps(1-3)])
next
  case (panics i st v e st')
  from panics.hyps(1,2) have "i \<le> i \<and> even (i + i) \<and> i < n \<and> cells st i = Valuer v" by simp
  with panics.prems have "\<forall>u. \<exists>y u'. run v u = (Returns y, u')" by blast
  then obtain y u' where "run v st = (Returns y, u')" by blast
  with panics.hyps(3) show ?case by simp
qed

section \<open>The example program\<close>

lemmas example_defs = bindValues_def bindValues_loop.simps example_closures_def load_def
  tick_def boom_def nested_def vandal_def saboteur_def slice_def

lemma upt_2: "[0..<2] = [0, 1]"
  by code_simp

lemma upt_6: "[0..<6] = [0, 1, 2, 3, 4, 5]"
  by code_simp

lemma keeps_tick: "keeps_slice example_closures n tick"
  by (simp add: keeps_slice_def example_closures_def)

lemma keeps_boom: "keeps_slice example_closures n boom"
  by (simp add: keeps_slice_def example_closures_def boom_def tick_def)

lemma odd_below_6:
  fixes j :: nat
  assumes "odd j" and "j < 6"
  shows "j = 1 \<or> j = 3 \<or> j = 5"
  using assms by presburger

lemma framed_two_ticks:
  "framed example_closures 6
     (load [StrV ''ts'', Valuer tick, StrV ''msg'', StrV ''hello'', StrV ''n'', Valuer tick] 0)"
  unfolding framed_def
proof (intro allI impI)
  fix j v
  assume a: "odd j \<and> j < 6 \<and>
    cells (load [StrV ''ts'', Valuer tick, StrV ''msg'', StrV ''hello'', StrV ''n'', Valuer tick]
            (0::nat)) j = Valuer v"
  then have "odd j" "j < 6" by simp_all
  then have "j = 1 \<or> j = 3 \<or> j = 5" by (rule odd_below_6)
  with a have "v = tick" by (auto simp: load_def)
  then show "keeps_slice example_closures 6 v" by (simp add: keeps_tick)
qed

section \<open>The slots after binding\<close>

text \<open>
  A Valuer can hold the slice that is being bound. \<open>vandal\<close> does, and writes a key
  slot: after \<open>bindValues\<close> the even slot 0 is not what it was.
\<close>

theorem bindValues_key_slot_counterexample:
  "fst (bindValues example_closures 2 (load [StrV ''k'', Valuer vandal] 0)) = Returns ()
   \<and> slice 2 (load [StrV ''k'', Valuer vandal] (0::nat)) = [StrV ''k'', Valuer vandal]
   \<and> slice 2 (snd (bindValues example_closures 2 (load [StrV ''k'', Valuer vandal] 0)))
       = [StrV ''hacked'', IntV 7]
   \<and> StrV ''hacked'' \<noteq> StrV ''k''"
  by (simp add: example_defs upt_2)

text \<open>
  C1, amended. Let the Valuers in the odd slots of the slice keep the slice. Then,
  whatever the outcome of \<open>bindValues\<close>, the slice keeps its length, and every
  even-index slot and every odd-index slot that holds no Valuer is left as it was.
  The Valuer of an odd slot \<open>j\<close> is invoked, with no arguments, in the state left by
  binding the slots before \<open>j\<close>; when it returns there, the slot holds the value it
  returned. When \<open>bindValues\<close> returns, this is so for every odd slot that held a
  Valuer; and \<open>bindValues\<close> returns when none of these Valuers ever panics. On a slice
  with no Valuer in an odd slot, and so on the empty slice, \<open>bindValues\<close> returns and
  changes nothing.
\<close>

theorem bindValues_replaces_odd_Valuers:
  fixes run :: "'w closures"
  assumes "framed run n st" and "bindValues run n st = (r, st')"
  shows "length (slice n st') = length (slice n st)
       \<and> (\<forall>a<n. even a \<or> \<not> isValuer (cells st a) \<longrightarrow> cells st' a = cells st a)
       \<and> (\<forall>j v t y t'. odd j \<and> j < n \<and> cells st j = Valuer v
             \<and> bindValues run j st = (Returns (), t) \<and> run v t = (Returns y, t')
            \<longrightarrow> cells st' j = y)
       \<and> (r = Returns () \<longrightarrow>
            (\<forall>j v. odd j \<and> j < n \<and> cells st j = Valuer v \<longrightarrow>
               (\<exists>t t'. bindValues run j st = (Returns (), t)
                      \<and> run v t = (Returns (cells st' j), t'))))
       \<and> ((\<forall>j v. odd j \<and> j < n \<and> cells st j = Valuer v \<longrightarrow>
               (\<forall>u. \<exists>y u'. run v u = (Returns y, u')))
            \<longrightarrow> r = Returns ())
       \<and> ((\<forall>j<n. odd j \<longrightarrow> \<not> isValuer (cells st j)) \<longrightarrow> r = Returns () \<and> st' = st)
       \<and> bindValues run 0 st = (Returns (), st)"
proof (intro conjI)
  note fr = assms(1) and res = assms(2)
  show "length (slice n st') = length (slice n st)" by simp
  show "\<forall>a<n. even a \<or> \<not> isValuer (cells st a) \<longrightarrow> cells st' a = cells st a"
  proof (intro allI impI)
    fix a assume "a < n" and "even a \<or> \<not> isValuer (cells st a)"
    then have "even a \<or> n \<le> a \<or> \<not> isValuer (cells st a)" by blast
    from bindValues_frame[OF fr order_refl \<open>a < n\<close> this] res
    show "cells st' a = cells st a" by simp
  qed
  show "\<forall>j v t y t'. odd j \<and> j < n \<and> cells st j = Valuer v
          \<and> bindValues run j st = (Returns (), t) \<and> run v t = (Returns y, t')
         \<longrightarrow> cells st' j = y"
  proof (intro allI impI)
    fix j v t y t'
    assume a: "odd j \<and> j < n \<and> cells st j = Valuer v
          \<and> bindValues run j st = (Returns (), t) \<and> run v t = (Returns y, t')"
    then have "odd j" "j < n" "cells st j = Valuer v"
      "bindValues run j st = (Returns (), t)" "run v t = (Returns y, t')" by simp_all
    from bindValues_resolved[OF fr this] res show "cells st' j = y" by simp
  qed
  show "r = Returns () \<longrightarrow>
          (\<forall>j v. odd j \<and> j < n \<and> cells st j = Valuer v \<longrightarrow>
             (\<exists>t t'. bindValues run j st = (Returns (), t)
                    \<and> run v t = (Returns (cells st' j), t')))"
  proof (intro impI allI)
    fix j v
    assume ok: "r = Returns ()" and jv: "odd j \<and> j < n \<and> cells st j = Valuer v"
    from res ok have "bindValues run n st = (Returns (), st')" by simp
    from bindValues_returned[OF fr this] jv
    show "\<exists>t t'. bindValues run j st = (Returns (), t)
                \<and> run v t = (Returns (cells st' j), t')" by blast
  qed
  show "(\<forall>j v. odd j \<and> j < n \<and> cells st j = Valuer v \<longrightarrow>
           (\<forall>u. \<exists>y u'. run v u = (Returns y, u')))
        \<longrightarrow> r = Returns ()"
  proof
    assume np: "\<forall>j v. odd j \<and> j < n \<and> cells st j = Valuer v \<longrightarrow>
           (\<forall>u. \<exists>y u'. run v u = (Returns y, u'))"
    have "\<forall>k v. 1 \<le> k \<and> even (1 + k) \<and> k < n \<and> cells st k = Valuer v \<longrightarrow>
       keeps_slice run n v \<and> (\<forall>u. \<exists>y u'. run v u = (Returns y, u'))"
    proof (intro allI impI)
      fix k v
      assume k: "1 \<le> k \<and> even (1 + k) \<and> k < n \<and> cells st k = Valuer v"
      then have "odd k" using odd_slot_iff[of k] by blast
      with k have "odd k \<and> k < n \<and> cells st k = Valuer v" by simp
      with fr np show "keeps_slice run n v \<and> (\<forall>u. \<exists>y u'. run v u = (Returns y, u'))"
        unfolding framed_def by blast
    qed
    from loop_total[OF this] res show "r = Returns ()" by (simp add: bindValues_def)
  qed
  show "(\<forall>j<n. odd j \<longrightarrow> \<not> isValuer (cells st j)) \<longrightarrow> r = Returns () \<and> st' = st"
  proof
    assume "\<forall>j<n. odd j \<longrightarrow> \<not> isValuer (cells st j)"
    then have "\<forall>j. 1 \<le> j \<and> even (1 + j) \<and> j < n \<longrightarrow> \<not> isValuer (cells st j)"
      by (simp add: odd_slot_iff)
    from loop_no_valuer[OF this, of run] res show "r = Returns () \<and> st' = st"
      by (simp add: bindValues_def)
  qed
  show "bindValues run 0 st = (Returns (), st)"
    by (simp add: bindValues_def loop_done)
qed

text \<open>
  Two Valuers that count calls, around a static pair: the first is handed the count
  0, the second the count 1, and the key slot 2 is as it was.
\<close>

theorem bindValues_replaces_odd_Valuers_witness:
  "fst (bindValues example_closures 6
          (load [StrV ''ts'', Valuer tick, StrV ''msg'', StrV ''hello'', StrV ''n'', Valuer tick] 0))
     = Returns ()
   \<and> slice 6 (snd (bindValues example_closures 6
          (load [StrV ''ts'', Valuer tick, StrV ''msg'', StrV ''hello'', StrV ''n'', Valuer tick] 0)))
     = [StrV ''ts'', IntV 0, StrV ''msg'', StrV ''hello'', StrV ''n'', IntV 1]
   \<and> cells (snd (bindValues example_closures 6
          (load [StrV ''ts'', Valuer tick, StrV ''msg'', StrV ''hello'', StrV ''n'', Valuer tick] 0))) 2
     = cells (load [StrV ''ts'', Valuer tick, StrV ''msg'', StrV ''hello'', StrV ''n'', Valuer tick]
               (0::nat)) 2
   \<and> (\<exists>t t'.
        bindValues example_closures 5
          (load [StrV ''ts'', Valuer tick, StrV ''msg'', StrV ''hello'', StrV ''n'', Valuer tick] 0)
          = (Returns (), t)
        \<and> example_closures tick t
          = (Returns (cells (snd (bindValues example_closures 6
               (load [StrV ''ts'', Valuer tick, StrV ''msg'', StrV ''hello'', StrV ''n'',
                      Valuer tick] 0))) 5), t'))"
proof -
  let ?st = "load [StrV ''ts'', Valuer tick, StrV ''msg'', StrV ''hello'', StrV ''n'', Valuer tick]
               (0::nat)"
  let ?out = "bindValues example_closures 6 ?st"
  have run: "?out = (fst ?out, snd ?out)" by simp
  have ok: "fst ?out = Returns ()" by (simp add: example_defs)
  have sl: "slice 6 (snd ?out)
      = [StrV ''ts'', IntV 0, StrV ''msg'', StrV ''hello'', StrV ''n'', IntV 1]"
    by (simp add: example_defs upt_6)
  note spec = bindValues_replaces_odd_Valuers [OF framed_two_ticks run]
  from spec have "\<forall>a<6. even a \<or> \<not> isValuer (cells ?st a) \<longrightarrow> cells (snd ?out) a = cells ?st a"
    by blast
  then have "(2::nat) < 6 \<longrightarrow> even (2::nat) \<or> \<not> isValuer (cells ?st 2)
      \<longrightarrow> cells (snd ?out) 2 = cells ?st 2"
    by blast
  then have key: "cells (snd ?out) 2 = cells ?st 2" by simp
  from spec have "fst ?out = Returns () \<longrightarrow>
      (\<forall>j v. odd j \<and> j < 6 \<and> cells ?st j = Valuer v \<longrightarrow>
         (\<exists>t t'. bindValues example_closures j ?st = (Returns (), t)
                \<and> example_closures v t = (Returns (cells (snd ?out) j), t')))"
    by blast
  with ok have "odd (5::nat) \<and> 5 < (6::nat) \<and> cells ?st 5 = Valuer tick \<longrightarrow>
         (\<exists>t t'. bindValues example_closures 5 ?st = (Returns (), t)
                \<and> example_closures tick t = (Returns (cells (snd ?out) 5), t'))"
    by blast
  moreover have "odd (5::nat) \<and> 5 < (6::nat) \<and> cells ?st 5 = Valuer tick"
    by (simp add: load_def)
  ultimately have "\<exists>t t'. bindValues example_closures 5 ?st = (Returns (), t)
                \<and> example_closures tick t = (Returns (cells (snd ?out) 5), t')"
    by (rule mp)
  with ok sl key show ?thesis by blast
qed

section \<open>A Valuer that panics\<close>

lemma loop_panic_origin:
  fixes run :: "'w closures"
  shows "bindValues_loop run n i st = (Panics e, st') \<Longrightarrow>
    \<exists>j v t. i \<le> j \<and> even (i + j) \<and> j < n
           \<and> bindValues_loop run j i st = (Returns (), t)
           \<and> cells t j = Valuer v \<and> run v t = (Panics e, st')"
proof (induction i st rule: loop_induct[where run = run and n = n])
  case (finished i st)
  from finished.prems loop_done[OF finished.hyps, of run st] show ?case by simp
next
  case (static i st)
  from static.prems loop_static[OF static.hyps, of run]
  have "bindValues_loop run n (i + 2) st = (Panics e, st')" by simp
  from static.IH[OF this] obtain j v t where
    j: "i + 2 \<le> j" "even (i + 2 + j)" "j < n"
    and pre: "bindValues_loop run j (i + 2) st = (Returns (), t)"
    and rest: "cells t j = Valuer v" "run v t = (Panics e, st')"
    by blast
  from j have "i < j" by simp
  from loop_static[OF this static.hyps(2), of run] pre
  have "bindValues_loop run j i st = (Returns (), t)" by simp
  moreover from j have "i \<le> j" "even (i + j)" by simp_all
  ultimately show ?case using j(3) rest by blast
next
  case (returns i st v y st1)
  let ?st2 = "st1\<lparr>cells := (cells st1)(i := y)\<rparr>"
  from returns.prems loop_returns[where run = run, OF returns.hyps(1-3)]
  have "bindValues_loop run n (i + 2) ?st2 = (Panics e, st')" by simp
  from returns.IH[OF this] obtain j w t where
    j: "i + 2 \<le> j" "even (i + 2 + j)" "j < n"
    and pre: "bindValues_loop run j (i + 2) ?st2 = (Returns (), t)"
    and rest: "cells t j = Valuer w" "run w t = (Panics e, st')"
    by blast
  from j have "i < j" by simp
  from loop_returns[where run = run, OF this returns.hyps(2,3)] pre
  have "bindValues_loop run j i st = (Returns (), t)" by simp
  moreover from j have "i \<le> j" "even (i + j)" by simp_all
  ultimately show ?case using j(3) rest by blast
next
  case (panics i st v e1 st1)
  from panics.prems loop_panics[where run = run, OF panics.hyps]
  have eqs: "e1 = e" "st1 = st'" by simp_all
  have "bindValues_loop run i i st = (Returns (), st)" by (rule loop_done) simp
  with eqs panics.hyps have "i \<le> i \<and> even (i + i) \<and> i < n
           \<and> bindValues_loop run i i st = (Returns (), st)
           \<and> cells st i = Valuer v \<and> run v st = (Panics e, st')"
    by simp
  then show ?case by blast
qed

lemma bindValues_panic_forward:
  fixes run :: "'w closures"
  assumes i: "odd i" "i < n"
    and pre: "bindValues run i st = (Returns (), t)"
    and slot: "cells t i = Valuer v"
    and fails: "run v t = (Panics e, t')"
  shows "bindValues run n st = (Panics e, t')"
proof -
  from i have ij: "1 \<le> i" "even (1 + i)" "i \<le> n"
    by (simp_all add: Suc_leI odd_pos)
  from pre have "bindValues_loop run i 1 st = (Returns (), t)" unfolding bindValues_def .
  from loop_split_returns[OF ij this]
  have "bindValues run n st = bindValues_loop run n i t" by (simp add: bindValues_def)
  also have "\<dots> = (Panics e, t')"
    by (rule loop_panics[where run = run, OF i(2) slot fails])
  finally show ?thesis .
qed

text \<open>
  A Valuer can write the slice and then panic. \<open>saboteur\<close>, in slot 3, puts a Valuer
  back into the bound slot 1 and overwrites the key slot 4 before it panics.
\<close>

theorem bindValues_panic_slots_counterexample:
  "fst (bindValues example_closures 6
          (load [StrV ''a'', Valuer tick, StrV ''b'', Valuer saboteur, StrV ''c'', Valuer tick] 0))
     = Panics (ErrorV ''boom'')
   \<and> slice 6 (snd (bindValues example_closures 3
          (load [StrV ''a'', Valuer tick, StrV ''b'', Valuer saboteur, StrV ''c'', Valuer tick] 0)))
     = [StrV ''a'', IntV 0, StrV ''b'', Valuer saboteur, StrV ''c'', Valuer tick]
   \<and> slice 6 (snd (bindValues example_closures 6
          (load [StrV ''a'', Valuer tick, StrV ''b'', Valuer saboteur, StrV ''c'', Valuer tick] 0)))
     = [StrV ''a'', Valuer tick, StrV ''b'', Valuer saboteur, StrV ''hacked'', Valuer tick]
   \<and> Valuer tick \<noteq> IntV 0 \<and> StrV ''hacked'' \<noteq> StrV ''c''"
  by (simp add: example_defs upt_6)

text \<open>
  C5, amended. Let the Valuer that the loop finds in the odd slot \<open>i\<close>, invoked in the
  state that binding the slots before \<open>i\<close> leaves, panic with \<open>e\<close>. Then \<open>bindValues\<close>
  panics with \<open>e\<close> itself, in the very state that Valuer left: nothing is rolled
  back and nothing more is done. \<open>bindValues\<close> panics in no other way. If moreover the
  Valuers in the odd slots keep the slice, then every slot from \<open>i\<close> on is unchanged,
  every slot before \<open>i\<close> is as binding the slots before \<open>i\<close> left it, and every odd
  slot before \<open>i\<close> that held a Valuer holds what that Valuer returned.
\<close>

theorem bindValues_panic_propagates:
  fixes run :: "'w closures"
  shows
  "(odd i \<and> i < n \<and> bindValues run i st = (Returns (), t)
      \<and> cells t i = Valuer v \<and> run v t = (Panics e, t')
    \<longrightarrow> bindValues run n st = (Panics e, t'))
   \<and> (bindValues run n st = (Panics e, st')
    \<longrightarrow> (\<exists>i v t. odd i \<and> i < n \<and> bindValues run i st = (Returns (), t)
          \<and> cells t i = Valuer v \<and> run v t = (Panics e, st')))
   \<and> (framed run n st \<and> odd i \<and> i < n \<and> bindValues run i st = (Returns (), t)
      \<and> cells t i = Valuer v \<and> run v t = (Panics e, t')
    \<longrightarrow> cells st i = Valuer v
        \<and> (\<forall>a<n. i \<le> a \<longrightarrow> cells t' a = cells st a)
        \<and> (\<forall>a<i. cells t' a = cells t a)
        \<and> (\<forall>j w. odd j \<and> j < i \<and> cells st j = Valuer w \<longrightarrow>
             (\<exists>u u'. bindValues run j st = (Returns (), u)
                    \<and> run w u = (Returns (cells t' j), u'))))"
proof (intro conjI impI)
  assume "odd i \<and> i < n \<and> bindValues run i st = (Returns (), t)
      \<and> cells t i = Valuer v \<and> run v t = (Panics e, t')"
  then have "odd i" "i < n" "bindValues run i st = (Returns (), t)"
    "cells t i = Valuer v" "run v t = (Panics e, t')" by simp_all
  then show "bindValues run n st = (Panics e, t')" by (rule bindValues_panic_forward)
next
  assume "bindValues run n st = (Panics e, st')"
  then have "bindValues_loop run n 1 st = (Panics e, st')" unfolding bindValues_def .
  from loop_panic_origin[OF this] obtain j v t where
    j: "1 \<le> j \<and> even (1 + j)" "j < n"
    and pre: "bindValues_loop run j 1 st = (Returns (), t)"
    and rest: "cells t j = Valuer v" "run v t = (Panics e, st')"
    by blast
  from j(1) have "odd j" using odd_slot_iff[of j] by blast
  moreover from pre have "bindValues run j st = (Returns (), t)" unfolding bindValues_def .
  ultimately show "\<exists>i v t. odd i \<and> i < n \<and> bindValues run i st = (Returns (), t)
          \<and> cells t i = Valuer v \<and> run v t = (Panics e, st')"
    using j(2) rest by blast
next
  assume a: "framed run n st \<and> odd i \<and> i < n \<and> bindValues run i st = (Returns (), t)
      \<and> cells t i = Valuer v \<and> run v t = (Panics e, t')"
  then have fr: "framed run n st" and i: "odd i" "i < n"
    and pre: "bindValues run i st = (Returns (), t)"
    and slot: "cells t i = Valuer v" and fails: "run v t = (Panics e, t')" by simp_all
  from i(2) have le: "i \<le> n" by simp
  have later: "cells t a = cells st a" if "i \<le> a" "a < n" for a
    using prefix_keeps_later[OF fr le that] pre by simp
  from later[of i] i(2) slot show orig: "cells st i = Valuer v" by simp
  with fr i have "keeps_slice run n v" unfolding framed_def by blast
  with fails have kept: "cells t' a = cells t a" if "a < n" for a
    using that by (auto simp: keeps_slice_def dest: spec[of _ t])
  from kept later show "\<forall>a<n. i \<le> a \<longrightarrow> cells t' a = cells st a" by simp
  from kept i(2) show "\<forall>a<i. cells t' a = cells t a" by simp
  show "\<forall>j w. odd j \<and> j < i \<and> cells st j = Valuer w \<longrightarrow>
          (\<exists>u u'. bindValues run j st = (Returns (), u)
                 \<and> run w u = (Returns (cells t' j), u'))"
  proof (intro allI impI)
    fix j w
    assume jw: "odd j \<and> j < i \<and> cells st j = Valuer w"
    then have j: "odd j" "j < i" and sj: "cells st j = Valuer w" by simp_all
    from bindValues_returned[OF framed_mono[OF fr le] pre j sj]
    obtain u u' where "bindValues run j st = (Returns (), u)"
      "run w u = (Returns (cells t j), u')" by blast
    moreover from j(2) i(2) kept[of j] have "cells t' j = cells t j" by simp
    ultimately show "\<exists>u u'. bindValues run j st = (Returns (), u)
                 \<and> run w u = (Returns (cells t' j), u')" by simp
  qed
qed

lemma framed_tick_boom_tick:
  "framed example_closures 6
     (load [StrV ''a'', Valuer tick, StrV ''b'', Valuer boom, StrV ''c'', Valuer tick] 0)"
  unfolding framed_def
proof (intro allI impI)
  fix j v
  assume a: "odd j \<and> j < 6 \<and>
    cells (load [StrV ''a'', Valuer tick, StrV ''b'', Valuer boom, StrV ''c'', Valuer tick]
            (0::nat)) j = Valuer v"
  then have "odd j" "j < 6" by simp_all
  then have "j = 1 \<or> j = 3 \<or> j = 5" by (rule odd_below_6)
  with a have "v = tick \<or> v = boom" by (auto simp: load_def)
  then show "keeps_slice example_closures 6 v" by (auto simp: keeps_tick keeps_boom)
qed

text \<open>
  The second of three Valuers panics: slot 1 is bound, slots 3 and 5 still hold their
  Valuers, and the Valuer of slot 5 was never invoked (the count is 1).
\<close>

theorem bindValues_panic_propagates_witness:
  "fst (bindValues example_closures 6
          (load [StrV ''a'', Valuer tick, StrV ''b'', Valuer boom, StrV ''c'', Valuer tick] 0))
     = Panics (ErrorV ''boom'')
   \<and> slice 6 (snd (bindValues example_closures 6
          (load [StrV ''a'', Valuer tick, StrV ''b'', Valuer boom, StrV ''c'', Valuer tick] 0)))
     = [StrV ''a'', IntV 0, StrV ''b'', Valuer boom, StrV ''c'', Valuer tick]
   \<and> world (snd (bindValues example_closures 6
          (load [StrV ''a'', Valuer tick, StrV ''b'', Valuer boom, StrV ''c'', Valuer tick] 0)))
     = 1
   \<and> cells (snd (bindValues example_closures 6
          (load [StrV ''a'', Valuer tick, StrV ''b'', Valuer boom, StrV ''c'', Valuer tick] 0))) 5
     = cells (load [StrV ''a'', Valuer tick, StrV ''b'', Valuer boom, StrV ''c'', Valuer tick]
               (0::nat)) 5"
proof -
  let ?st = "load [StrV ''a'', Valuer tick, StrV ''b'', Valuer boom, StrV ''c'', Valuer tick]
               (0::nat)"
  let ?t = "snd (bindValues example_closures 3 ?st)"
  let ?out = "bindValues example_closures 6 ?st"
  have pre: "bindValues example_closures 3 ?st = (Returns (), ?t)"
    by (simp add: example_defs)
  have slot: "cells ?t 3 = Valuer boom" by (simp add: example_defs)
  have fails: "example_closures boom ?t = (Panics (ErrorV ''boom''), ?t)"
    by (simp add: example_closures_def boom_def tick_def)
  have hyp: "framed example_closures 6 ?st \<and> odd (3::nat) \<and> (3::nat) < 6
      \<and> bindValues example_closures 3 ?st = (Returns (), ?t)
      \<and> cells ?t 3 = Valuer boom
      \<and> example_closures boom ?t = (Panics (ErrorV ''boom''), ?t)"
    using framed_tick_boom_tick pre slot fails by simp
  note spec = bindValues_panic_propagates
    [of 3 6 example_closures ?st ?t boom "ErrorV ''boom''" ?t]
  from spec hyp have out: "?out = (Panics (ErrorV ''boom''), ?t)" by blast
  from spec hyp have "\<forall>a<6. 3 \<le> a \<longrightarrow> cells ?t a = cells ?st a" by blast
  then have "(5::nat) < 6 \<longrightarrow> (3::nat) \<le> 5 \<longrightarrow> cells ?t 5 = cells ?st 5" by blast
  then have last: "cells ?t 5 = cells ?st 5" by simp
  have sl: "slice 6 ?t = [StrV ''a'', IntV 0, StrV ''b'', Valuer boom, StrV ''c'', Valuer tick]"
    by (simp add: example_defs upt_6)
  have w: "world ?t = 1" by (simp add: example_defs)
  from out sl w last show ?thesis by simp
qed

section \<open>Binding twice\<close>

text \<open>
  A Valuer may return a Valuer. \<open>bindValues\<close> stores whatever the Valuer returned, so
  the odd slot then holds a Valuer once more, and a second call invokes it. \<open>nested\<close>
  is such a Valuer, and it keeps the slice.
\<close>

theorem bindValues_twice_counterexample:
  "fst (bindValues example_closures 2 (load [StrV ''k'', Valuer nested] 0)) = Returns ()
   \<and> slice 2 (snd (bindValues example_closures 2 (load [StrV ''k'', Valuer nested] 0)))
       = [StrV ''k'', Valuer tick]
   \<and> containsValuer [StrV ''k'', Valuer tick] = Returns True
   \<and> slice 2 (snd (bindValues example_closures 2
         (snd (bindValues example_closures 2 (load [StrV ''k'', Valuer nested] 0)))))
       = [StrV ''k'', IntV 0]
   \<and> [StrV ''k'', IntV 0] \<noteq> [StrV ''k'', Valuer tick]"
  by (simp add: example_defs upt_2 containsValuer_def containsValuer_loop.simps)

text \<open>
  C3, amended. Let the Valuers in the odd slots of the slice keep the slice and never
  return a Valuer, and let \<open>bindValues\<close> return. Then after the call no odd-index slot
  holds a Valuer, and a second call, in whatever world, returns and changes nothing.
\<close>

theorem bindValues_twice:
  fixes run :: "'w closures"
  assumes fr: "framed run n st"
    and static: "\<forall>j v t y t'. odd j \<and> j < n \<and> cells st j = Valuer v
                   \<and> run v t = (Returns y, t') \<longrightarrow> \<not> isValuer y"
    and res: "bindValues run n st = (Returns (), st')"
  shows "(\<forall>j<n. odd j \<longrightarrow> \<not> isValuer (cells st' j))
       \<and> containsValuer (slice n st') = Returns False
       \<and> bindValues run n st' = (Returns (), st')
       \<and> (\<forall>w. bindValues run n (st'\<lparr>world := w\<rparr>) = (Returns (), st'\<lparr>world := w\<rparr>))"
proof -
  have none: "\<not> isValuer (cells st' j)" if j: "odd j" "j < n" for j
  proof (cases "asValuer (cells st j)")
    case None
    then have "even j \<or> n \<le> j \<or> \<not> isValuer (cells st j)"
      by (simp add: asValuer_None_iff)
    from bindValues_frame[OF fr order_refl j(2) this] res
    have "cells st' j = cells st j" by simp
    with None show ?thesis by (simp add: asValuer_None_iff)
  next
    case (Some v)
    then have slot: "cells st j = Valuer v" by (simp add: asValuer_Some_iff)
    from bindValues_returned[OF fr res j slot] obtain t t' where
      "run v t = (Returns (cells st' j), t')" by blast
    with static j slot show ?thesis by blast
  qed
  then have a: "\<forall>j<n. odd j \<longrightarrow> \<not> isValuer (cells st' j)" by simp
  then have "(\<exists>j<length (slice n st'). odd j \<and> isValuer (slice n st' ! j)) = False"
    by auto
  then have b: "containsValuer (slice n st') = Returns False"
    unfolding containsValuer_eq by (rule arg_cong)
  have c: "bindValues run n u = (Returns (), u)" if "cells u = cells st'" for u
  proof -
    from a that
    have "\<forall>j. 1 \<le> j \<and> even (1 + j) \<and> j < n \<longrightarrow> \<not> isValuer (cells u j)"
      by (simp add: odd_slot_iff)
    from loop_no_valuer[OF this] show ?thesis by (simp add: bindValues_def)
  qed
  from c[of st'] have c1: "bindValues run n st' = (Returns (), st')" by simp
  have c2: "\<forall>w. bindValues run n (st'\<lparr>world := w\<rparr>) = (Returns (), st'\<lparr>world := w\<rparr>)"
    by (intro allI c) simp
  from a b c1 c2 show ?thesis by blast
qed

text \<open>A Valuer that returns a number: one call binds it, a second call changes nothing.\<close>

theorem bindValues_twice_witness:
  "fst (bindValues example_closures 2 (load [StrV ''n'', Valuer tick] 7)) = Returns ()
   \<and> slice 2 (snd (bindValues example_closures 2 (load [StrV ''n'', Valuer tick] 7)))
       = [StrV ''n'', IntV 7]
   \<and> containsValuer
        (slice 2 (snd (bindValues example_closures 2 (load [StrV ''n'', Valuer tick] 7))))
       = Returns False
   \<and> bindValues example_closures 2
        (snd (bindValues example_closures 2 (load [StrV ''n'', Valuer tick] 7)))
       = (Returns (), snd (bindValues example_closures 2 (load [StrV ''n'', Valuer tick] 7)))"
proof -
  let ?st = "load [StrV ''n'', Valuer tick] (7::nat)"
  let ?out = "bindValues example_closures 2 ?st"
  have ok: "fst ?out = Returns ()" by (simp add: example_defs)
  then have run: "?out = (Returns (), snd ?out)" by (simp add: prod_eq_iff)
  have sl: "slice 2 (snd ?out) = [StrV ''n'', IntV 7]" by (simp add: example_defs upt_2)
  have vs: "v = tick" if "odd j \<and> j < 2 \<and> cells ?st j = Valuer v" for j v
  proof -
    from that have "odd j" "j < 2" by simp_all
    then have "j = 1" by presburger
    with that show ?thesis by (simp add: load_def)
  qed
  have fr: "framed example_closures 2 ?st"
    unfolding framed_def using vs keeps_tick by blast
  have static: "\<forall>j v t y t'. odd j \<and> j < 2 \<and> cells ?st j = Valuer v
                   \<and> example_closures v t = (Returns y, t') \<longrightarrow> \<not> isValuer y"
  proof (intro allI impI)
    fix j v t y t'
    assume a: "odd j \<and> j < 2 \<and> cells ?st j = Valuer v
                   \<and> example_closures v t = (Returns y, t')"
    with vs[of j v] have "example_closures tick t = (Returns y, t')" by simp
    then show "\<not> isValuer y" by (auto simp: example_closures_def)
  qed
  from bindValues_twice [OF fr static run] ok sl show ?thesis by blast
qed

section \<open>The order of the invocations\<close>

lemma slice_cells: "slice n s = slice n t \<Longrightarrow> a < n \<Longrightarrow> cells s a = cells t a"
  using nth_slice[of a n s] nth_slice[of a n t] by simp

lemma slice_cell: "slice n st = xs \<Longrightarrow> a < n \<Longrightarrow> cells st a = xs ! a"
  using nth_slice[of a n st] by simp

lemma visit_step: "i < n \<Longrightarrow> visited i n = i # visited (i + 2) n"
proof (cases "Suc i < n")
  case True
  then have "[i..<n] = i # Suc i # [Suc (Suc i)..<n]"
    by (simp add: upt_conv_Cons)
  then show ?thesis by (simp add: visited_def)
next
  case False
  moreover assume "i < n"
  ultimately have "n = Suc i" by simp
  then show ?thesis by (simp add: visited_def)
qed

lemma visit_done: "\<not> i < n \<Longrightarrow> visited i n = []"
  by (simp add: visited_def)

lemma visit_odd: "visited 1 n = filter odd [0..<n]"
proof (cases n)
  case 0
  then show ?thesis by (simp add: visited_def)
next
  case (Suc m)
  then have "[0..<n] = 0 # [1..<n]" by (simp add: upt_conv_Cons)
  then show ?thesis by (simp add: visited_def)
qed

text \<open>Started at index \<open>i\<close>, the loop binds the slots \<open>i\<close>, \<open>i + 2\<close>, ... one after the other.\<close>

lemma loop_order:
  fixes run :: "'w closures"
  shows "bindValues_loop run n i st = bind_slots run (visited i n) st"
proof (induction i st rule: loop_induct[where run = run and n = n])
  case (finished i st)
  then show ?case by (simp add: loop_done visit_done)
next
  case (static i st)
  from static.hyps(2) have "asValuer (cells st i) = None" by (simp add: asValuer_None_iff)
  then have "bind_slot run i st = (Returns (), st)" by (simp add: bind_slot_def)
  with static.IH show ?case
    by (simp add: loop_static[OF static.hyps] visit_step[OF static.hyps(1)])
next
  case (returns i st v y st')
  from returns.hyps(2,3)
  have "bind_slot run i st = (Returns (), st'\<lparr>cells := (cells st')(i := y)\<rparr>)"
    by (simp add: bind_slot_def)
  with returns.IH show ?case
    by (simp add: loop_returns[where run = run, OF returns.hyps(1-3)]
          visit_step[OF returns.hyps(1)])
next
  case (panics i st v e st')
  from panics.hyps(2,3) have "bind_slot run i st = (Panics e, st')"
    by (simp add: bind_slot_def)
  then show ?case
    by (simp add: loop_panics[where run = run, OF panics.hyps] visit_step[OF panics.hyps(1)])
qed

text \<open>
  A Valuer can write the slice. In \<open>[k0, f0, k1, v1, k2, f1]\<close> with \<open>vandal\<close> for \<open>f0\<close>
  and \<open>tick\<close> for \<open>f1\<close>, the key slot 0 is overwritten, and so is slot 5, before the
  loop arrives there: \<open>f1\<close> is never invoked (the count stays 0).
\<close>

theorem bindValues_order_counterexample:
  "fst (bindValues example_closures 6
          (load [StrV ''k0'', Valuer vandal, StrV ''k1'', StrV ''v1'', StrV ''k2'', Valuer tick] 0))
     = Returns ()
   \<and> slice 6 (snd (bindValues example_closures 6
          (load [StrV ''k0'', Valuer vandal, StrV ''k1'', StrV ''v1'', StrV ''k2'', Valuer tick] 0)))
     = [StrV ''hacked'', IntV 7, StrV ''k1'', StrV ''v1'', StrV ''k2'', StrV ''gone'']
   \<and> world (snd (bindValues example_closures 6
          (load [StrV ''k0'', Valuer vandal, StrV ''k1'', StrV ''v1'', StrV ''k2'', Valuer tick] 0)))
     = 0
   \<and> StrV ''hacked'' \<noteq> StrV ''k0''"
  by (simp add: example_defs upt_6)

text \<open>
  C4, amended. \<open>bindValues\<close> binds the odd slots in strictly ascending index order:
  it is the binding of the slots 1, 3, 5, ... one after the other, each in the state
  that the slots before it left, up to the first panic; what is invoked at a slot is
  the Valuer found there when the loop arrives. For \<open>[k0, f0, k1, v1, k2, f1]\<close> with
  \<open>v1\<close> static and \<open>f0\<close>, \<open>f1\<close> Valuers that return and leave the slice as they find
  it, \<open>f0\<close> is invoked first, \<open>f1\<close> in the state that \<open>f0\<close> and the store of its
  result left, and the slice ends as \<open>[k0, r0, k1, v1, k2, r1]\<close>.
\<close>

theorem bindValues_ascending_order:
  fixes run :: "'w closures"
  shows
  "bindValues run n st = bind_slots run (filter odd [0..<n]) st
   \<and> sorted_wrt (<) (filter odd [0..<n])
   \<and> (slice 6 st = [k0, Valuer f0, k1, v1, k2, Valuer f1] \<and> \<not> isValuer v1
        \<and> run f0 st = (Returns r0, s1) \<and> slice 6 s1 = slice 6 st
        \<and> run f1 (s1\<lparr>cells := (cells s1)(1 := r0)\<rparr>) = (Returns r1, s2)
        \<and> slice 6 s2 = slice 6 (s1\<lparr>cells := (cells s1)(1 := r0)\<rparr>)
      \<longrightarrow> bindValues run 6 st = (Returns (), s2\<lparr>cells := (cells s2)(5 := r1)\<rparr>)
          \<and> slice 6 (s2\<lparr>cells := (cells s2)(5 := r1)\<rparr>) = [k0, r0, k1, v1, k2, r1])"
proof (intro conjI impI)
  show "bindValues run n st = bind_slots run (filter odd [0..<n]) st"
    by (simp only: bindValues_def loop_order visit_odd)
  show "sorted_wrt (<) (filter odd [0..<n])"
    by (simp add: sorted_wrt_filter)
next
  assume a: "slice 6 st = [k0, Valuer f0, k1, v1, k2, Valuer f1] \<and> \<not> isValuer v1
        \<and> run f0 st = (Returns r0, s1) \<and> slice 6 s1 = slice 6 st
        \<and> run f1 (s1\<lparr>cells := (cells s1)(1 := r0)\<rparr>) = (Returns r1, s2)
        \<and> slice 6 s2 = slice 6 (s1\<lparr>cells := (cells s1)(1 := r0)\<rparr>)"
  let ?u1 = "s1\<lparr>cells := (cells s1)(1 := r0)\<rparr>"
  let ?u2 = "s2\<lparr>cells := (cells s2)(5 := r1)\<rparr>"
  from a have sl: "slice 6 st = [k0, Valuer f0, k1, v1, k2, Valuer f1]"
    and sl1: "slice 6 s1 = slice 6 st" and sl2: "slice 6 s2 = slice 6 ?u1" by simp_all
  have st: "cells st 1 = Valuer f0"
    using slice_cell[OF sl, of 1] by simp
  have s1: "cells s1 0 = k0" "cells s1 2 = k1" "cells s1 3 = v1" "cells s1 4 = k2"
    "cells s1 5 = Valuer f1"
    using slice_cell[OF sl1[unfolded sl], of 0] slice_cell[OF sl1[unfolded sl], of 2]
      slice_cell[OF sl1[unfolded sl], of 3] slice_cell[OF sl1[unfolded sl], of 4]
      slice_cell[OF sl1[unfolded sl], of 5]
    by simp_all
  have s2: "cells s2 a = cells ?u1 a" if "a < 6" for a
    using slice_cells[OF sl2 that] .
  from a have r0: "run f0 st = (Returns r0, s1)"
    and r1: "run f1 ?u1 = (Returns r1, s2)" and v1: "\<not> isValuer v1" by simp_all
  have "bindValues run 6 st = bindValues_loop run 6 1 st" by (simp add: bindValues_def)
  also have "\<dots> = bindValues_loop run 6 (1 + 2) ?u1"
    by (rule loop_returns[where run = run, OF _ st r0]) simp
  also have "\<dots> = bindValues_loop run 6 3 ?u1" by (simp add: eval_nat_numeral)
  also have "\<dots> = bindValues_loop run 6 (3 + 2) ?u1"
    by (rule loop_static) (simp_all add: s1 v1)
  also have "\<dots> = bindValues_loop run 6 5 ?u1" by (simp add: eval_nat_numeral)
  also have "\<dots> = bindValues_loop run 6 (5 + 2) ?u2"
    by (rule loop_returns[where run = run, OF _ _ r1]) (simp_all add: s1)
  also have "\<dots> = (Returns (), ?u2)"
    by (rule loop_done) simp
  finally show "bindValues run 6 st = (Returns (), ?u2)" .
  from s2[of 0] s2[of 1] s2[of 2] s2[of 3] s2[of 4] s1
  show "slice 6 ?u2 = [k0, r0, k1, v1, k2, r1]"
    by (simp add: slice_def upt_6)
qed

text \<open>
  The two Valuers count calls: the one in slot 1 is handed the count 0 and the one in
  slot 5 the count 1.
\<close>

theorem bindValues_ascending_order_witness:
  "slice 6 (snd (bindValues example_closures 6
      (load [StrV ''k0'', Valuer tick, StrV ''k1'', StrV ''v1'', StrV ''k2'', Valuer tick] 0)))
     = [StrV ''k0'', IntV 0, StrV ''k1'', StrV ''v1'', StrV ''k2'', IntV 1]
   \<and> fst (bindValues example_closures 6
      (load [StrV ''k0'', Valuer tick, StrV ''k1'', StrV ''v1'', StrV ''k2'', Valuer tick] 0))
     = Returns ()"
proof -
  let ?K = "[StrV ''k0'', Valuer tick, StrV ''k1'', StrV ''v1'', StrV ''k2'', Valuer tick]"
  let ?st = "load ?K (0::nat)"
  let ?s1 = "?st\<lparr>world := 1\<rparr>"
  let ?u1 = "?s1\<lparr>cells := (cells ?s1)(1 := IntV 0)\<rparr>"
  let ?s2 = "?u1\<lparr>world := 2\<rparr>"
  let ?u2 = "?s2\<lparr>cells := (cells ?s2)(5 := IntV 1)\<rparr>"
  have hyp: "slice 6 ?st = [StrV ''k0'', Valuer tick, StrV ''k1'', StrV ''v1'', StrV ''k2'', Valuer tick]
        \<and> \<not> isValuer (StrV ''v1'')
        \<and> example_closures tick ?st = (Returns (IntV 0), ?s1) \<and> slice 6 ?s1 = slice 6 ?st
        \<and> example_closures tick ?u1 = (Returns (IntV 1), ?s2)
        \<and> slice 6 ?s2 = slice 6 ?u1"
    by (simp add: example_closures_def load_def slice_def upt_6)
  from bindValues_ascending_order
    [of example_closures 6 ?st "StrV ''k0''" tick "StrV ''k1''" "StrV ''v1''" "StrV ''k2''" tick
        "IntV 0" ?s1 "IntV 1" ?s2]
    hyp
  have "bindValues example_closures 6 ?st = (Returns (), ?u2)
      \<and> slice 6 ?u2 = [StrV ''k0'', IntV 0, StrV ''k1'', StrV ''v1'', StrV ''k2'', IntV 1]"
    by blast
  then show ?thesis by simp
qed

section \<open>Binding a timestamp\<close>

text \<open>
  Bound, the Valuer of \<open>TimestampFormat\<close> reads the time source once and leaves a
  \<open>TimeFormat\<close> of that instant and the layout in its slot; that of \<open>Timestamp\<close>
  leaves the instant itself.
\<close>

lemma bindValues_TimestampFormat:
  fixes run :: "'w closures"
  assumes "cells st 1 = Valuer v" and "run v = TimestampFormat t layout"
    and "t st = (Returns now, st')"
  shows "bindValues run 2 st
           = (Returns (),
              st'\<lparr>cells := (cells st')(1 := TimeFormatV \<lparr>Time = now, Layout = layout\<rparr>)\<rparr>)"
proof -
  from assms(2,3)
  have "run v st = (Returns (TimeFormatV \<lparr>Time = now, Layout = layout\<rparr>), st')"
    by (simp add: TimestampFormat_def)
  from loop_returns[where run = run, OF _ assms(1) this, of 2] show ?thesis
    by (simp add: bindValues_def loop_done)
qed

lemma bindValues_Timestamp:
  fixes run :: "'w closures"
  assumes "cells st 1 = Valuer v" and "run v = Timestamp t" and "t st = (Returns now, st')"
  shows "bindValues run 2 st = (Returns (), st'\<lparr>cells := (cells st')(1 := TimeV now)\<rparr>)"
proof -
  from assms(2,3) have "run v st = (Returns (TimeV now), st')"
    by (simp add: Timestamp_def)
  from loop_returns[where run = run, OF _ assms(1) this, of 2] show ?thesis
    by (simp add: bindValues_def loop_done)
qed

section \<open>Rendering a TimeFormat\<close>

text \<open>
  C6. For every TimeFormat value (and every layout engine), the bytes of \<open>MarshalText\<close>
  are the text of \<open>String\<close>. The text is a function of the captured instant and the
  layout alone: two values that agree on both render to the same text.
\<close>

theorem MarshalText_eq_String:
  "fst (TimeFormat_MarshalText appendFormat tf) = TimeFormat_String appendFormat tf
   \<and> (Time tf' = Time tf \<and> Layout tf' = Layout tf \<longrightarrow>
        TimeFormat_String appendFormat tf' = TimeFormat_String appendFormat tf)"
  by (simp add: TimeFormat_MarshalText_def TimeFormat_String_def Time_Format_def)

text \<open>An instant in UTC, rendered by the example layout engine.\<close>

theorem MarshalText_eq_String_witness:
  "fst (TimeFormat_MarshalText example_appendFormat
          \<lparr>Time = \<lparr>wall = 1257894000, zone = ''UTC''\<rparr>, Layout = ''2006-01-02''\<rparr>)
     = ''2006-01-02@UTC''
   \<and> TimeFormat_String example_appendFormat
          \<lparr>Time = \<lparr>wall = 1257894000, zone = ''UTC''\<rparr>, Layout = ''2006-01-02''\<rparr>
     = ''2006-01-02@UTC''"
proof -
  let ?tf = "\<lparr>Time = \<lparr>wall = 1257894000, zone = ''UTC''\<rparr>, Layout = ''2006-01-02''\<rparr>"
  have "TimeFormat_String example_appendFormat ?tf = ''2006-01-02@UTC''"
    by (simp add: TimeFormat_String_def Time_Format_def example_appendFormat_def)
  with MarshalText_eq_String [of example_appendFormat ?tf ?tf] show ?thesis by simp
qed

text \<open>
  C10. \<open>MarshalText\<close> never fails: for every TimeFormat value, the error it returns is
  nil.
\<close>

theorem MarshalText_never_fails:
  "snd (TimeFormat_MarshalText appendFormat tf) = None"
  by (simp add: TimeFormat_MarshalText_def)

section \<open>Looking up a voyage\<close>

lemma NewVoyageRepository_put_all:
  "NewVoyageRepository sv = put_all \<lparr>voyages = Map.empty\<rparr> (preloaded sv)"
  by (simp add: NewVoyageRepository_def preloaded_def Let_def bind_eq_None_conv
           split: option.splits Option.bind_splits)

lemma put_all_Cons:
  assumes "put_all r (p # ps) = Some r'"
  obtains v where "p = Some v"
    and "put_all (r\<lparr>voyages := (voyages r)(Number v \<mapsto> p)\<rparr>) ps = Some r'"
proof -
  from assms obtain r1 where r1: "put r p = Some r1" and rest: "put_all r1 ps = Some r'"
    by (auto split: option.splits)
  from r1 obtain v where "p = Some v" "r1 = r\<lparr>voyages := (voyages r)(Number v \<mapsto> p)\<rparr>"
    by (auto simp: put_def split: option.splits)
  with rest that show thesis by blast
qed

lemma put_all_stored:
  "put_all r ps = Some r' \<Longrightarrow> voyages r' k = Some p \<Longrightarrow>
   (p \<in> set ps \<and> (\<exists>v. p = Some v \<and> Number v = k)) \<or> voyages r k = Some p"
proof (induction ps arbitrary: r)
  case Nil
  then show ?case by simp
next
  case (Cons q ps)
  from Cons.prems(1) obtain v where q: "q = Some v"
    and rest: "put_all (r\<lparr>voyages := (voyages r)(Number v \<mapsto> q)\<rparr>) ps = Some r'"
    by (rule put_all_Cons)
  from Cons.IH[OF rest Cons.prems(2)] q show ?case
    by (auto split: if_splits)
qed

lemma put_all_absent:
  "put_all r ps = Some r' \<Longrightarrow> (\<forall>v. Some v \<in> set ps \<longrightarrow> Number v \<noteq> n) \<Longrightarrow>
   voyages r' n = voyages r n"
proof (induction ps arbitrary: r)
  case Nil
  then show ?case by simp
next
  case (Cons q ps)
  from Cons.prems(1) obtain v where q: "q = Some v"
    and rest: "put_all (r\<lparr>voyages := (voyages r)(Number v \<mapsto> q)\<rparr>) ps = Some r'"
    by (rule put_all_Cons)
  from Cons.prems(2) have "\<forall>v. Some v \<in> set ps \<longrightarrow> Number v \<noteq> n" by simp
  from Cons.IH[OF rest this] have "voyages r' n = ((voyages r)(Number v \<mapsto> q)) n" by simp
  moreover from Cons.prems(2) q have "Number v \<noteq> n" by simp
  ultimately show ?case by simp
qed

lemma put_all_present:
  "put_all r ps = Some r' \<Longrightarrow> distinct (map (map_option Number) ps) \<Longrightarrow>
   Some v \<in> set ps \<Longrightarrow> voyages r' (Number v) = Some (Some v)"
proof (induction ps arbitrary: r)
  case Nil
  then show ?case by simp
next
  case (Cons q ps)
  from Cons.prems(1) obtain w where q: "q = Some w"
    and rest: "put_all (r\<lparr>voyages := (voyages r)(Number w \<mapsto> q)\<rparr>) ps = Some r'"
    by (rule put_all_Cons)
  from Cons.prems(2) have fresh: "map_option Number q \<notin> map_option Number ` set ps"
    and dist: "distinct (map (map_option Number) ps)" by simp_all
  show ?case
  proof (cases "Some v \<in> set ps")
    case True
    from Cons.IH[OF rest dist True] show ?thesis .
  next
    case False
    with Cons.prems(3) q have vw: "v = w" by simp
    have "\<forall>u. Some u \<in> set ps \<longrightarrow> Number u \<noteq> Number w"
    proof (intro allI impI notI)
      fix u assume "Some u \<in> set ps" "Number u = Number w"
      then have "map_option Number q \<in> map_option Number ` set ps"
        using q by (intro image_eqI[of _ _ "Some u"]) simp_all
      with fresh show False by contradiction
    qed
    from put_all_absent[OF rest this] q vw show ?thesis by simp
  qed
qed

lemma put_all_non_nil: "put_all r ps = Some r' \<Longrightarrow> None \<notin> set ps"
proof (induction ps arbitrary: r)
  case Nil
  then show ?case by simp
next
  case (Cons q ps)
  from Cons.prems(1) obtain v where q: "q = Some v"
    and rest: "put_all (r\<lparr>voyages := (voyages r)(Number v \<mapsto> q)\<rparr>) ps = Some r'"
    by (rule put_all_Cons)
  from Cons.IH[OF rest] q show ?case by simp
qed

lemma NewVoyageRepository_stored:
  assumes "NewVoyageRepository sv = Some r" and "voyages r k = Some p"
  shows "p \<in> set (preloaded sv) \<and> (\<exists>v. p = Some v \<and> Number v = k)"
  using put_all_stored[OF assms(1)[unfolded NewVoyageRepository_put_all] assms(2)] by simp

text \<open>
  C7. Let the constructor have built the repository \<open>r\<close> from the sample voyages.
  If the samples carry pairwise different numbers, \<open>Find\<close> at the number of a sample
  returns that very sample and a nil error. At a number that no sample carries it
  returns a nil pointer and \<open>ErrUnknown\<close>. Whatever the number, the result is a sample
  carrying that number with a nil error, or nil with \<open>ErrUnknown\<close>: never another
  record, never another error.
\<close>

theorem Find_preloaded:
  assumes "NewVoyageRepository sv = Some r"
  shows "(distinct (map (map_option Number) (preloaded sv)) \<longrightarrow>
            (\<forall>v. Some v \<in> set (preloaded sv) \<and> Number v = n \<longrightarrow> Find r n = (Some v, None)))
       \<and> ((\<forall>v. Some v \<in> set (preloaded sv) \<longrightarrow> Number v \<noteq> n) \<longrightarrow>
            Find r n = (None, Some ErrUnknown))
       \<and> (\<forall>p e. Find r n = (p, e) \<longrightarrow>
            (\<exists>v. p = Some v \<and> Number v = n \<and> p \<in> set (preloaded sv) \<and> e = None)
            \<or> (p = None \<and> e = Some ErrUnknown))"
proof (intro conjI)
  note built = assms[unfolded NewVoyageRepository_put_all]
  show "distinct (map (map_option Number) (preloaded sv)) \<longrightarrow>
          (\<forall>v. Some v \<in> set (preloaded sv) \<and> Number v = n \<longrightarrow> Find r n = (Some v, None))"
  proof (intro impI allI)
    fix v
    assume dist: "distinct (map (map_option Number) (preloaded sv))"
      and v: "Some v \<in> set (preloaded sv) \<and> Number v = n"
    from put_all_present[OF built dist] v have "voyages r n = Some (Some v)" by blast
    then show "Find r n = (Some v, None)" by (simp add: Find_def)
  qed
  show "(\<forall>v. Some v \<in> set (preloaded sv) \<longrightarrow> Number v \<noteq> n) \<longrightarrow>
          Find r n = (None, Some ErrUnknown)"
  proof
    assume "\<forall>v. Some v \<in> set (preloaded sv) \<longrightarrow> Number v \<noteq> n"
    from put_all_absent[OF built this] show "Find r n = (None, Some ErrUnknown)"
      by (simp add: Find_def)
  qed
  show "\<forall>p e. Find r n = (p, e) \<longrightarrow>
          (\<exists>v. p = Some v \<and> Number v = n \<and> p \<in> set (preloaded sv) \<and> e = None)
          \<or> (p = None \<and> e = Some ErrUnknown)"
  proof (intro allI impI)
    fix p e
    assume res: "Find r n = (p, e)"
    show "(\<exists>v. p = Some v \<and> Number v = n \<and> p \<in> set (preloaded sv) \<and> e = None)
          \<or> (p = None \<and> e = Some ErrUnknown)"
    proof (cases "voyages r n")
      case None
      with res show ?thesis by (simp add: Find_def)
    next
      case (Some q)
      with res have "p = q" "e = None" by (simp_all add: Find_def)
      with NewVoyageRepository_stored[OF assms Some] show ?thesis by blast
    qed
  qed
qed

lemma example_built: "NewVoyageRepository example_voyages = Some example_repository"
  by (simp add: NewVoyageRepository_def example_voyages_def example_repository_def put_def)

text \<open>
  In the example repository \<open>V300\<close> is found under its number, and nothing under
  \<open>V200\<close>.
\<close>

theorem Find_preloaded_witness:
  "NewVoyageRepository example_voyages = Some example_repository
   \<and> Find example_repository ''V300'' = (V300 example_voyages, None)
   \<and> Find example_repository ''V200'' = (None, Some ErrUnknown)"
proof -
  have dist: "distinct (map (map_option Number) (preloaded example_voyages))"
    by (simp add: preloaded_def example_voyages_def)
  have mem: "Some \<lparr>Number = ''V300'', Schedule = [''Tokyo'', ''Rotterdam'', ''Hamburg'']\<rparr>
               \<in> set (preloaded example_voyages)
             \<and> Number \<lparr>Number = ''V300'', Schedule = [''Tokyo'', ''Rotterdam'', ''Hamburg'']\<rparr> = ''V300''"
    by (simp add: preloaded_def example_voyages_def)
  have absent: "\<forall>v. Some v \<in> set (preloaded example_voyages) \<longrightarrow> Number v \<noteq> ''V200''"
    by (auto simp: preloaded_def example_voyages_def)
  have v300: "V300 example_voyages = Some \<lparr>Number = ''V300'', Schedule = [''Tokyo'', ''Rotterdam'', ''Hamburg'']\<rparr>"
    by (simp add: example_voyages_def)
  from Find_preloaded[OF example_built, of "''V300''"] dist mem
  have "Find example_repository ''V300'' = (V300 example_voyages, None)"
    unfolding v300 by blast
  moreover from Find_preloaded[OF example_built, of "''V200''"] absent
  have "Find example_repository ''V200'' = (None, Some ErrUnknown)" by blast
  ultimately show ?thesis using example_built by blast
qed

text \<open>Every pointer in a repository that the constructor built is non-nil.\<close>

lemma NewVoyageRepository_non_nil:
  "NewVoyageRepository sv = Some r \<Longrightarrow> \<forall>k p. voyages r k = Some p \<longrightarrow> p \<noteq> None"
  using NewVoyageRepository_stored by blast

text \<open>
  C9. In a repository whose stored pointers are all non-nil, \<open>Find\<close> returns a nil
  pointer exactly when it returns a non-nil error: the result is a stored, non-nil
  pointer with a nil error, or nil with \<open>ErrUnknown\<close>.
\<close>

theorem Find_nil_iff_error:
  assumes "\<forall>k p. voyages r k = Some p \<longrightarrow> p \<noteq> None"
    and "Find r n = (p, e)"
  shows "(p = None \<longleftrightarrow> e \<noteq> None)
       \<and> ((p \<noteq> None \<and> voyages r n = Some p \<and> e = None) \<or> (p = None \<and> e = Some ErrUnknown))"
proof (cases "voyages r n")
  case None
  with assms(2) show ?thesis by (auto simp: Find_def)
next
  case (Some q)
  with assms(1) have "q \<noteq> None" by blast
  with Some assms(2) show ?thesis by (auto simp: Find_def)
qed

text \<open>The example repository, at a number it holds and at one it does not.\<close>

theorem Find_nil_iff_error_witness:
  "Find example_repository ''0301S'' = (V0301S example_voyages, None)
   \<and> V0301S example_voyages \<noteq> None
   \<and> Find example_repository ''0302S'' = (None, Some ErrUnknown)"
proof -
  note nn = NewVoyageRepository_non_nil[OF example_built]
  have a: "Find example_repository ''0301S'' = (V0301S example_voyages, None)"
    by (simp add: Find_def example_repository_def)
  have b: "Find example_repository ''0302S'' = (None, Some ErrUnknown)"
    by (simp add: Find_def example_repository_def)
  from Find_nil_iff_error[OF nn a] Find_nil_iff_error[OF nn b] a b show ?thesis by blast
qed

end
